theory Spec2Isabelle
  imports Main
begin

section \<open>Outlook MCP server: shallow embedding\<close>

text \<open>
  The development embeds two parts of the repository.
  \<^item> \<^verbatim>\<open>src/server.py\<close>: \<^verbatim>\<open>graph_get\<close>, \<^verbatim>\<open>graph_get_paginated\<close>, \<^verbatim>\<open>resolve_folder\<close>,
    \<^verbatim>\<open>list_emails\<close>, \<^verbatim>\<open>search_emails\<close> and \<^verbatim>\<open>_format_search_results\<close>.
  \<^item> \<^verbatim>\<open>src/auth/token_service.py\<close>: \<^verbatim>\<open>TokenService.get_token\<close> and
    \<^verbatim>\<open>TokenService._refresh_token\<close>.

  Python exceptions are values of the type \<open>exn\<close>; a function that can raise returns
  \<open>exn + 'a\<close> with \<open>Inl\<close> for the exception. Every effect is explicit: the remote
  mailbox API, the identity provider, the clock and the credential table are part of a
  state that is passed in and returned. The \<^verbatim>\<open>while\<close> loop of \<^verbatim>\<open>graph_get_paginated\<close> can
  run forever, so it is a partial function into \<open>option\<close> and \<open>None\<close> means that the
  call does not return.
\<close>

subsection \<open>Exceptions and strings\<close>

datatype exn =
    ToolError string
  | TokenServiceError string int
  | TransportError
  | JSONDecodeError
  | KeyError string
  | AttributeError
  | TypeError
  | OverflowError

text \<open>\<^verbatim>\<open>str(n)\<close> for a Python integer.\<close>

definition digit_char :: "nat \<Rightarrow> char" where
  "digit_char d = ''0123456789'' ! d"

fun str_nat :: "nat \<Rightarrow> string" where
  "str_nat n =
     (if n < 10 then [digit_char n]
      else str_nat (n div 10) @ [digit_char (n mod 10)])"

declare str_nat.simps [simp del]

definition str_int :: "int \<Rightarrow> string" where
  "str_int i = (if i < 0 then CHR ''-'' # str_nat (nat (- i)) else str_nat (nat i))"

text \<open>\<^verbatim>\<open>s.startswith(p)\<close>, \<^verbatim>\<open>sep.join(xs)\<close> and \<^verbatim>\<open>s.lower()\<close> (on ASCII letters).\<close>

definition startswith :: "string \<Rightarrow> string \<Rightarrow> bool" where
  "startswith s p = (take (length p) s = p)"

fun join :: "string \<Rightarrow> string list \<Rightarrow> string" where
  "join sep [] = []"
| "join sep [x] = x"
| "join sep (x # y # ys) = x @ sep @ join sep (y # ys)"

definition lower_char :: "char \<Rightarrow> char" where
  "lower_char c =
     (let n = (of_char c :: nat) in if 65 \<le> n \<and> n \<le> 90 then char_of (n + 32) else c)"

definition lower :: "string \<Rightarrow> string" where
  "lower s = map lower_char s"

text \<open>
  Truth value of an \<^verbatim>\<open>Optional[str]\<close>: \<^verbatim>\<open>None\<close> and the empty string are false.
\<close>

fun truthy :: "string option \<Rightarrow> bool" where
  "truthy None = False"
| "truthy (Some s) = (s \<noteq> [])"

text \<open>
  \<^verbatim>\<open>xs[:n]\<close> for a Python integer \<open>n\<close>: a negative bound counts from the end.
\<close>

definition slice_to :: "'a list \<Rightarrow> int \<Rightarrow> 'a list" where
  "slice_to xs n = (if 0 \<le> n then take (nat n) xs else take (length xs - nat (- n)) xs)"

subsection \<open>The remote mailbox API\<close>

text \<open>
  Query parameters are a Python dict in insertion order; their values are integers
  (\<^verbatim>\<open>$top\<close>) or strings. A request sent by \<^verbatim>\<open>client.get\<close> has a URL, the
  \<^verbatim>\<open>Authorization\<close> header and the \<^verbatim>\<open>params\<close> argument, which is \<^verbatim>\<open>None\<close> for a
  continuation link.
\<close>

datatype pval = PInt int | PStr string

type_synonym params = "(string \<times> pval) list"

record request =
  url :: string
  authorization :: string
  query :: "params option"

text \<open>
  The response envelope of the API: the item collection \<^verbatim>\<open>value\<close> and the optional
  continuation link \<^verbatim>\<open>@odata.nextLink\<close>. Both keys may be absent. The items are of an
  arbitrary type \<open>'a\<close>. A reply is a network-level failure (httpx raises), or a status
  code with the body, where the body \<open>None\<close> is one that \<^verbatim>\<open>response.json()\<close> cannot parse.
\<close>

record 'a page =
  "value" :: "'a list option"
  nextLink :: "string option"

datatype 'a reply = NetworkFailure | Reply int "'a page option"

text \<open>
  The remote service is a transition function on a state \<open>'w\<close> of its own, so that the
  same request may be answered differently at different times. The state of the network
  side is the state of the service and the log of all exchanges so far, oldest first.
\<close>

type_synonym ('w, 'a) server = "'w \<Rightarrow> request \<Rightarrow> 'a reply \<times> 'w"

record ('w, 'a) net =
  remote :: 'w
  exchanges :: "(request \<times> 'a reply) list"

text \<open>The per-call execution context: the state set by the middleware.\<close>

record ctx =
  user_id_state :: "string option"
  microsoft_token :: "string option"

subsection \<open>\<^verbatim>\<open>graph_get\<close>\<close>

definition GRAPH_BASE_URL :: string where
  "GRAPH_BASE_URL = ''https://graph.microsoft.com/v1.0''"

text \<open>The arguments of \<^verbatim>\<open>client.get\<close> (lines 72 and 76 to 78).\<close>

definition graph_request :: "string \<Rightarrow> string \<Rightarrow> params \<Rightarrow> request" where
  "graph_request access_token endpoint params =
     \<lparr> url = (if startswith endpoint ''http'' then endpoint
              else GRAPH_BASE_URL @ ''/'' @ endpoint),
       authorization = ''Bearer '' @ access_token,
       query = (if \<not> startswith endpoint ''http'' then Some params else None) \<rparr>"

text \<open>
  What \<^verbatim>\<open>graph_get\<close> makes of the reply (lines 74 to 85): a failure of the transport is
  the exception of httpx, status 401 and every other status from 400 on are a
  \<^verbatim>\<open>ToolError\<close>, and everything below 400 is parsed.
\<close>

definition check_response :: "'a reply \<Rightarrow> exn + 'a page" where
  "check_response response =
     (case response of
        NetworkFailure \<Rightarrow> Inl TransportError
      | Reply status_code body \<Rightarrow>
          if status_code = 401 then
            Inl (ToolError ''Session expired. Please reconnect your Outlook account.'')
          else if status_code \<ge> 400 then
            Inl (ToolError (''Microsoft Graph API error: '' @ str_int status_code))
          else (case body of None \<Rightarrow> Inl JSONDecodeError | Some data \<Rightarrow> Inr data))"

definition graph_get ::
  "('w, 'a) server \<Rightarrow> ctx \<Rightarrow> string \<Rightarrow> params \<Rightarrow> ('w, 'a) net
     \<Rightarrow> (exn + 'a page) \<times> ('w, 'a) net" where
  "graph_get srv ctx endpoint params s =
     (if \<not> truthy (microsoft_token ctx) then
        (Inl (ToolError
           ''Microsoft authentication required. Please connect your Outlook account.''), s)
      else
        let access_token = the (microsoft_token ctx);
            req = graph_request access_token endpoint params;
            (response, w') = srv (remote s) req;
            s' = \<lparr> remote = w', exchanges = exchanges s @ [(req, response)] \<rparr>
        in (check_response response, s'))"

subsection \<open>\<^verbatim>\<open>graph_get_paginated\<close>\<close>

text \<open>
  The loop of lines 94 to 104 with its state \<^verbatim>\<open>all_items\<close>, \<^verbatim>\<open>current_endpoint\<close> and
  \<^verbatim>\<open>current_params\<close>, followed by the \<^verbatim>\<open>return\<close> of line 106. An exception of
  \<^verbatim>\<open>graph_get\<close> leaves the loop and the function.
\<close>

text \<open>\<^verbatim>\<open>response.get("value", [])\<close>.\<close>

definition page_items :: "'a page \<Rightarrow> 'a list" where
  "page_items response = (case value response of None \<Rightarrow> [] | Some xs \<Rightarrow> xs)"

partial_function (option) paginate ::
  "('w, 'a) server \<Rightarrow> ctx \<Rightarrow> int \<Rightarrow> 'a list \<Rightarrow> string \<Rightarrow> params \<Rightarrow> ('w, 'a) net
     \<Rightarrow> ((exn + 'a list) \<times> ('w, 'a) net) option" where
  "paginate srv ctx max_count all_items current_endpoint current_params s =
     (if int (length all_items) < max_count then
        (case graph_get srv ctx current_endpoint current_params s of
           (Inl e, s') \<Rightarrow> Some (Inl e, s')
         | (Inr response, s') \<Rightarrow>
             let items = page_items response;
                 all_items' = all_items @ items;
                 next_link = nextLink response
             in if \<not> truthy next_link \<or> int (length all_items') \<ge> max_count
                then Some (Inr (slice_to all_items' max_count), s')
                else paginate srv ctx max_count all_items' (the next_link) [] s')
      else Some (Inr (slice_to all_items max_count), s))"

declare paginate.simps [code]

definition graph_get_paginated ::
  "('w, 'a) server \<Rightarrow> ctx \<Rightarrow> string \<Rightarrow> int \<Rightarrow> params \<Rightarrow> ('w, 'a) net
     \<Rightarrow> ((exn + 'a list) \<times> ('w, 'a) net) option" where
  "graph_get_paginated srv ctx endpoint max_count params s =
     paginate srv ctx max_count [] endpoint params s"

subsection \<open>\<^verbatim>\<open>resolve_folder\<close>\<close>

definition WELL_KNOWN_FOLDERS :: "(string \<times> string) list" where
  "WELL_KNOWN_FOLDERS =
     [(''inbox'', ''me/mailFolders/inbox/messages''),
      (''drafts'', ''me/mailFolders/drafts/messages''),
      (''sent'', ''me/mailFolders/sentItems/messages''),
      (''deleted'', ''me/mailFolders/deletedItems/messages''),
      (''junk'', ''me/mailFolders/junkemail/messages''),
      (''archive'', ''me/mailFolders/archive/messages'')]"

definition inbox_endpoint :: string where
  "inbox_endpoint = ''me/mailFolders/inbox/messages''"

text \<open>
  The lookup of a custom folder is one \<^verbatim>\<open>graph_get\<close>, and every exception under the
  \<^verbatim>\<open>try\<close> is swallowed, the \<^verbatim>\<open>KeyError\<close> of a folder without \<^verbatim>\<open>id\<close> too. The field
  \<^verbatim>\<open>id\<close> of an item is read by the parameter \<open>item_id\<close>.
\<close>

definition resolve_folder ::
  "('w, 'a) server \<Rightarrow> ('a \<Rightarrow> string option) \<Rightarrow> ctx \<Rightarrow> string \<Rightarrow> ('w, 'a) net
     \<Rightarrow> string \<times> ('w, 'a) net" where
  "resolve_folder srv item_id ctx folder_name s =
     (if folder_name = [] then (inbox_endpoint, s)
      else
        (case map_of WELL_KNOWN_FOLDERS (lower folder_name) of
           Some endpoint \<Rightarrow> (endpoint, s)
         | None \<Rightarrow>
             (case graph_get srv ctx ''me/mailFolders''
                     [(''$filter'',
                       PStr (''displayName eq '' @ [CHR 0x27] @ folder_name @ [CHR 0x27]))] s of
                (Inl e, s') \<Rightarrow> (inbox_endpoint, s')
              | (Inr response, s') \<Rightarrow>
                  (case value response of
                     Some (folder # rest) \<Rightarrow>
                       (case item_id folder of
                          Some folder_id \<Rightarrow>
                            (''me/mailFolders/'' @ folder_id @ ''/messages'', s')
                        | None \<Rightarrow> (inbox_endpoint, s'))
                   | _ \<Rightarrow> (inbox_endpoint, s')))))"

subsection \<open>\<^verbatim>\<open>list_emails\<close>\<close>

definition email_list_fields :: string where
  "email_list_fields =
     ''id,subject,from,toRecipients,ccRecipients,receivedDateTime,bodyPreview,hasAttachments,importance,isRead''"

text \<open>
  Lines 237 to 247: the count is clamped, the folder resolved and the messages fetched.
  The result is the list \<^verbatim>\<open>emails\<close>.
\<close>

definition list_emails_fetch ::
  "('w, 'a) server \<Rightarrow> ('a \<Rightarrow> string option) \<Rightarrow> ctx \<Rightarrow> string \<Rightarrow> int \<Rightarrow> ('w, 'a) net
     \<Rightarrow> ((exn + 'a list) \<times> ('w, 'a) net) option" where
  "list_emails_fetch srv item_id ctx folder count0 s =
     (let count = min 50 (max 1 count0);
          (endpoint, s1) = resolve_folder srv item_id ctx folder s
      in graph_get_paginated srv ctx endpoint count
           [(''$top'', PInt (min 50 count)),
            (''$orderby'', PStr ''receivedDateTime desc''),
            (''$select'', PStr email_list_fields)] s1)"

text \<open>
  The lines printed for one message (its number, sender, date, subject and
  identifier; lines 255 to 263 and 364 to 372) are the parameter \<open>email_lines\<close>,
  which gets the number of the message, counted from 1. It can raise: the fields of a
  message are read with \<^verbatim>\<open>get\<close>, sliced and formatted, and a field of an unexpected
  type is a \<^verbatim>\<open>TypeError\<close> or \<^verbatim>\<open>AttributeError\<close>. \<open>format_lines\<close> is the \<^verbatim>\<open>for\<close>
  loop over \<^verbatim>\<open>enumerate(emails, 1)\<close>, which the first exception leaves.
\<close>

fun format_lines ::
  "(nat \<Rightarrow> 'a \<Rightarrow> exn + string list) \<Rightarrow> nat \<Rightarrow> 'a list \<Rightarrow> exn + string list" where
  "format_lines email_lines i [] = Inr []"
| "format_lines email_lines i (email # emails) =
     (case email_lines i email of
        Inl e \<Rightarrow> Inl e
      | Inr ls \<Rightarrow>
          (case format_lines email_lines (Suc i) emails of
             Inl e \<Rightarrow> Inl e
           | Inr rest \<Rightarrow> Inr (ls @ rest)))"

text \<open>Lines 249 to 265. An exception of the formatting is one of the tool.\<close>

definition list_emails ::
  "('w, 'a) server \<Rightarrow> ('a \<Rightarrow> string option) \<Rightarrow> (nat \<Rightarrow> 'a \<Rightarrow> exn + string list) \<Rightarrow> ctx
     \<Rightarrow> string \<Rightarrow> int \<Rightarrow> ('w, 'a) net \<Rightarrow> ((exn + string) \<times> ('w, 'a) net) option" where
  "list_emails srv item_id email_lines ctx folder count0 s =
     (case list_emails_fetch srv item_id ctx folder count0 s of
        None \<Rightarrow> None
      | Some (Inl e, s') \<Rightarrow> Some (Inl e, s')
      | Some (Inr emails, s') \<Rightarrow>
          if emails = [] then Some (Inr (''No emails found in '' @ folder @ ''.''), s')
          else (case format_lines email_lines 1 emails of
                  Inl e \<Rightarrow> Some (Inl e, s')
                | Inr ls \<Rightarrow>
                    Some (Inr (join [CHR 0x0A]
                      ((''Found '' @ str_nat (length emails) @ '' emails in '' @ folder
                          @ '':'' @ [CHR 0x0A]) # ls)), s')))"

subsection \<open>\<^verbatim>\<open>search_emails\<close>\<close>

text \<open>\<^verbatim>\<open>_format_search_results\<close>, lines 357 to 374.\<close>

definition format_search_results ::
  "(nat \<Rightarrow> 'a \<Rightarrow> exn + string list) \<Rightarrow> 'a list \<Rightarrow> string \<Rightarrow> exn + string" where
  "format_search_results email_lines emails strategy =
     (if emails = [] then Inr ''No emails found matching your search criteria.''
      else (case format_lines email_lines 1 emails of
              Inl e \<Rightarrow> Inl e
            | Inr ls \<Rightarrow>
                Inr (join [CHR 0x0A]
                  ((''Found '' @ str_nat (length emails) @ '' emails (via '' @ strategy
                      @ ''):'' @ [CHR 0x0A]) # ls))))"

definition quoted :: "string \<Rightarrow> string" where
  "quoted v = [CHR 0x22] @ v @ [CHR 0x22]"

definition base_params :: "int \<Rightarrow> params" where
  "base_params count =
     [(''$top'', PInt count),
      (''$orderby'', PStr ''receivedDateTime desc''),
      (''$select'', PStr email_list_fields)]"

text \<open>Lines 295 to 321: the parameters of the combined search.\<close>

definition combined_params ::
  "int \<Rightarrow> string option \<Rightarrow> string option \<Rightarrow> string option \<Rightarrow> bool option \<Rightarrow> bool option
     \<Rightarrow> params" where
  "combined_params count query_text subject from_address has_attachments unread_only =
     (let search_terms =
            (if truthy query_text then [quoted (the query_text)] else [])
            @ (if truthy subject then [''subject:'' @ quoted (the subject)] else [])
            @ (if truthy from_address then [''from:'' @ quoted (the from_address)] else []);
          params1 =
            (if search_terms \<noteq> []
             then base_params count @ [(''$search'', PStr (join '' '' search_terms))]
             else base_params count);
          filters =
            (if has_attachments = Some True then [''hasAttachments eq true''] else [])
            @ (if unread_only = Some True then [''isRead eq false''] else [])
      in if filters \<noteq> []
         then params1 @ [(''$filter'', PStr (join '' and '' filters))]
         else params1)"

text \<open>Lines 335 to 340: the parameters of the search for one term alone.\<close>

definition term_params :: "int \<Rightarrow> string \<Rightarrow> string \<Rightarrow> params" where
  "term_params count term_name term_value =
     base_params count
     @ [(''$search'',
         PStr (if term_name \<noteq> ''query'' then term_name @ '':'' @ quoted term_value
               else quoted term_value))]"

text \<open>
  The \<^verbatim>\<open>for\<close> loop of lines 332 to 345 over the remaining terms. The fetch and the
  call of \<^verbatim>\<open>_format_search_results\<close> are both under the \<^verbatim>\<open>try\<close>, so an exception of
  either goes on with the next term. The result \<open>Some hit\<close> is the \<^verbatim>\<open>return\<close> inside
  the loop: the text returned, and with it the emails and the strategy that were given
  to \<^verbatim>\<open>_format_search_results\<close>. \<open>None\<close> is the end of the loop.
\<close>

fun individual_terms ::
  "('w, 'a) server \<Rightarrow> (nat \<Rightarrow> 'a \<Rightarrow> exn + string list) \<Rightarrow> ctx \<Rightarrow> string \<Rightarrow> int
     \<Rightarrow> (string \<times> string option) list \<Rightarrow> ('w, 'a) net
     \<Rightarrow> (('a list \<times> string \<times> string) option \<times> ('w, 'a) net) option" where
  "individual_terms srv email_lines ctx endpoint count [] s = Some (None, s)"
| "individual_terms srv email_lines ctx endpoint count ((term_name, term_value) # terms) s =
     (if truthy term_value then
        (case graph_get_paginated srv ctx endpoint count
                (term_params count term_name (the term_value)) s of
           None \<Rightarrow> None
         | Some (Inl e, s') \<Rightarrow> individual_terms srv email_lines ctx endpoint count terms s'
         | Some (Inr emails, s') \<Rightarrow>
             if emails \<noteq> [] then
               (case format_search_results email_lines emails (term_name @ '' search'') of
                  Inl e \<Rightarrow> individual_terms srv email_lines ctx endpoint count terms s'
                | Inr text \<Rightarrow> Some (Some (emails, term_name @ '' search'', text), s'))
             else individual_terms srv email_lines ctx endpoint count terms s')
      else individual_terms srv email_lines ctx endpoint count terms s)"

text \<open>
  Lines 331 to 354: what follows a combined search without a result. The last fetch
  and its formatting are under no \<^verbatim>\<open>try\<close>.
\<close>

definition search_fallback ::
  "('w, 'a) server \<Rightarrow> (nat \<Rightarrow> 'a \<Rightarrow> exn + string list) \<Rightarrow> ctx \<Rightarrow> string \<Rightarrow> int
     \<Rightarrow> string option \<Rightarrow> string option \<Rightarrow> string option \<Rightarrow> ('w, 'a) net
     \<Rightarrow> ((exn + 'a list \<times> string \<times> string) \<times> ('w, 'a) net) option" where
  "search_fallback srv email_lines ctx endpoint count query_text subject from_address s =
     (case individual_terms srv email_lines ctx endpoint count
             [(''subject'', subject), (''from'', from_address), (''query'', query_text)] s of
        None \<Rightarrow> None
      | Some (Some hit, s') \<Rightarrow> Some (Inr hit, s')
      | Some (None, s') \<Rightarrow>
          (case graph_get_paginated srv ctx endpoint count (base_params count) s' of
             None \<Rightarrow> None
           | Some (Inl e, s'') \<Rightarrow> Some (Inl e, s'')
           | Some (Inr emails, s'') \<Rightarrow>
               (case format_search_results email_lines emails ''recent emails fallback'' of
                  Inl e \<Rightarrow> Some (Inl e, s'')
                | Inr text \<Rightarrow> Some (Inr (emails, ''recent emails fallback'', text), s''))))"

text \<open>
  Lines 291 to 354. Every \<^verbatim>\<open>return\<close> of \<^verbatim>\<open>search_emails\<close> is a call
  \<^verbatim>\<open>_format_search_results(emails, strategy)\<close>. \<open>search_emails_select\<close> is the body of
  the tool; beside the text that the tool returns, its result names the two arguments
  of the call that made the text. \<open>search_emails\<close> is the tool, which returns the text.
  The combined search and its formatting are under one \<^verbatim>\<open>try\<close> (lines 324 to 329).
\<close>

definition search_emails_select ::
  "('w, 'a) server \<Rightarrow> ('a \<Rightarrow> string option) \<Rightarrow> (nat \<Rightarrow> 'a \<Rightarrow> exn + string list) \<Rightarrow> ctx
     \<Rightarrow> string option \<Rightarrow> string \<Rightarrow> string option \<Rightarrow> string option \<Rightarrow> bool option
     \<Rightarrow> bool option \<Rightarrow> int \<Rightarrow> ('w, 'a) net
     \<Rightarrow> ((exn + 'a list \<times> string \<times> string) \<times> ('w, 'a) net) option" where
  "search_emails_select srv item_id email_lines ctx query_text folder from_address subject
       has_attachments unread_only count0 s =
     (let count = min 50 (max 1 count0);
          (endpoint, s1) = resolve_folder srv item_id ctx folder s
      in case graph_get_paginated srv ctx endpoint count
                (combined_params count query_text subject from_address
                   has_attachments unread_only) s1 of
           None \<Rightarrow> None
         | Some (Inl e, s2) \<Rightarrow>
             search_fallback srv email_lines ctx endpoint count query_text subject
               from_address s2
         | Some (Inr emails, s2) \<Rightarrow>
             if emails \<noteq> [] then
               (case format_search_results email_lines emails ''combined search'' of
                  Inl e \<Rightarrow>
                    search_fallback srv email_lines ctx endpoint count query_text subject
                      from_address s2
                | Inr text \<Rightarrow> Some (Inr (emails, ''combined search'', text), s2))
             else search_fallback srv email_lines ctx endpoint count query_text subject
                    from_address s2)"

definition search_emails ::
  "('w, 'a) server \<Rightarrow> ('a \<Rightarrow> string option) \<Rightarrow> (nat \<Rightarrow> 'a \<Rightarrow> exn + string list) \<Rightarrow> ctx
     \<Rightarrow> string option \<Rightarrow> string \<Rightarrow> string option \<Rightarrow> string option \<Rightarrow> bool option
     \<Rightarrow> bool option \<Rightarrow> int \<Rightarrow> ('w, 'a) net \<Rightarrow> ((exn + string) \<times> ('w, 'a) net) option" where
  "search_emails srv item_id email_lines ctx query_text folder from_address subject
       has_attachments unread_only count0 s =
     (case search_emails_select srv item_id email_lines ctx query_text folder from_address
             subject has_attachments unread_only count0 s of
        None \<Rightarrow> None
      | Some (Inl e, s') \<Rightarrow> Some (Inl e, s')
      | Some (Inr (emails, strategy, text), s') \<Rightarrow> Some (Inr text, s'))"

subsection \<open>Notions used in the statements about pagination\<close>

text \<open>
  The items that \<^verbatim>\<open>graph_get_paginated\<close> takes from a reply, and the items it has taken
  from a list of exchanges: a reply that \<^verbatim>\<open>graph_get\<close> turns into an exception
  contributes nothing.
\<close>

definition reply_items :: "'a reply \<Rightarrow> 'a list" where
  "reply_items response =
     (case check_response response of Inl e \<Rightarrow> [] | Inr data \<Rightarrow> page_items data)"

definition fetched :: "(request \<times> 'a reply) list \<Rightarrow> 'a list" where
  "fetched xs = concat (map (\<lambda>x. reply_items (snd x)) xs)"

text \<open>A reply continues when it is a page with a continuation link.\<close>

definition continues :: "'a reply \<Rightarrow> bool" where
  "continues response =
     (case check_response response of Inl e \<Rightarrow> False | Inr data \<Rightarrow> truthy (nextLink data))"

definition link_of :: "'a reply \<Rightarrow> string" where
  "link_of response =
     (case check_response response of Inl e \<Rightarrow> [] | Inr data \<Rightarrow> the (nextLink data))"

text \<open>
  The continuation relation of a service, for the bearer token \<open>tok\<close>: from a state and
  a request whose reply continues, to the state after the reply and the request for the
  continuation link. The pages behind every request are finitely many when this
  relation is well-founded.
\<close>

definition continuation ::
  "('w, 'a) server \<Rightarrow> string \<Rightarrow> (('w \<times> request) \<times> ('w \<times> request)) set" where
  "continuation srv tok =
     {((w', req'), (w, req)).
        continues (fst (srv w req)) \<and> w' = snd (srv w req)
        \<and> req' = graph_request tok (link_of (fst (srv w req))) []}"

text \<open>Every page with a continuation link has at least one item.\<close>

definition nonempty_continuations :: "('w, 'a) server \<Rightarrow> bool" where
  "nonempty_continuations srv =
     (\<forall>w req. continues (fst (srv w req)) \<longrightarrow> reply_items (fst (srv w req)) \<noteq> [])"

text \<open>The exception of a call without a bearer token in the context.\<close>

definition AuthMissing :: exn where
  "AuthMissing = ToolError ''Microsoft authentication required. Please connect your Outlook account.''"

text \<open>
  What a run of the loop from the accumulated items \<open>acc\<close> leaves in the log, and how
  the result belongs to it. \<open>xs\<close> are the exchanges of the run, oldest first.
  \<^item> Before each request fewer than \<open>m\<close> items are accumulated.
  \<^item> Every reply but the last continues, and the request after it is the one that
    \<^verbatim>\<open>graph_get\<close> builds from its continuation link and no parameters.
  \<^item> The first request is built from the endpoint and the parameters of the call.
  \<^item> An exception is the one of the last reply, or that of the missing token when
    nothing was sent; a list of items is the slice of everything accumulated, and the
    last reply is then a page without a continuation link or one that fills the count.
\<close>

definition trace_ok ::
  "ctx \<Rightarrow> int \<Rightarrow> 'a list \<Rightarrow> string \<Rightarrow> params \<Rightarrow> (request \<times> 'a reply) list \<Rightarrow> (exn + 'a list) \<Rightarrow> bool" where
  "trace_ok ctx m acc e p xs res =
    ((\<forall>k<length xs. int (length (acc @ fetched (take k xs))) < m)
   \<and> (\<forall>k. Suc k < length xs \<longrightarrow> continues (snd (xs ! k))
          \<and> fst (xs ! Suc k) = graph_request (the (microsoft_token ctx)) (link_of (snd (xs ! k))) [])
   \<and> (xs \<noteq> [] \<longrightarrow> fst (hd xs) = graph_request (the (microsoft_token ctx)) e p
          \<and> truthy (microsoft_token ctx))
   \<and> (case res of
         Inl err \<Rightarrow> int (length acc) < m
            \<and> (if xs = [] then \<not> truthy (microsoft_token ctx) \<and> err = AuthMissing
                else check_response (snd (last xs)) = Inl err)
       | Inr items \<Rightarrow> items = slice_to (acc @ fetched xs) m
            \<and> (if xs = [] then \<not> int (length acc) < m
                else (\<exists>pg. check_response (snd (last xs)) = Inr pg)
                     \<and> (\<not> continues (snd (last xs)) \<or> m \<le> int (length (acc @ fetched xs))))))"

text \<open>
  Three services for concrete runs. The items are natural numbers and the state of the
  service is the number of items handed out so far. \<open>endless_source\<close> answers every
  request with the next ten items and a continuation link; \<open>finite_source n\<close> does so
  until \<open>n\<close> items are out and leaves the link away on the last page; \<open>stuck_source\<close>
  answers with an empty page and a continuation link.
\<close>

definition endless_source :: "(nat, nat) server" where
  "endless_source w req =
     (Reply 200 (Some \<lparr> value = Some [w ..< w + 10],
                        nextLink = Some ''https://graph.microsoft.com/v1.0/next'' \<rparr>),
      w + 10)"

definition finite_source :: "nat \<Rightarrow> (nat, nat) server" where
  "finite_source n w req =
     (Reply 200 (Some \<lparr> value = Some [w ..< min (w + 10) n],
                        nextLink = (if w + 10 < n
                                    then Some ''https://graph.microsoft.com/v1.0/next''
                                    else None) \<rparr>),
      min (w + 10) n)"

definition stuck_source :: "(nat, nat) server" where
  "stuck_source w req =
     (Reply 200 (Some \<lparr> value = Some [],
                        nextLink = Some ''https://graph.microsoft.com/v1.0/next'' \<rparr>), w)"

definition bound_ctx :: ctx where
  "bound_ctx = \<lparr> user_id_state = Some ''u1'', microsoft_token = Some ''tok'' \<rparr>"

definition unbound_ctx :: ctx where
  "unbound_ctx = \<lparr> user_id_state = None, microsoft_token = None \<rparr>"

definition fresh_net :: "(nat, nat) net" where
  "fresh_net = \<lparr> remote = 0, exchanges = [] \<rparr>"

subsection \<open>The token service: data\<close>

text \<open>
  A \<^verbatim>\<open>datetime\<close> is naive (a wall-clock reading) or aware (a wall-clock reading with its
  offset from UTC). Both are counted in microseconds, the resolution of \<^verbatim>\<open>datetime\<close>,
  from the epoch. \<^verbatim>\<open>total_seconds()\<close> divides the microseconds of a \<^verbatim>\<open>timedelta\<close> by
  \<open>10\<^sup>6\<close>, so \<^verbatim>\<open>total_seconds() < 300\<close> holds exactly when the difference is below
  \<open>300000000\<close> microseconds. A \<^verbatim>\<open>datetime\<close> of Python lies in the years 1 to 9999:
  its wall-clock reading is at least \<open>DATETIME_MIN\<close> and below \<open>DATETIME_END\<close>, and an
  addition that leaves this range raises \<^verbatim>\<open>OverflowError\<close>.
\<close>

datatype datetime = Naive int | Aware int int

definition replace_tzinfo_utc :: "datetime \<Rightarrow> datetime" where
  "replace_tzinfo_utc d = (case d of Naive wall \<Rightarrow> Aware wall 0 | Aware wall off \<Rightarrow> Aware wall 0)"

definition tzinfo_is_None :: "datetime \<Rightarrow> bool" where
  "tzinfo_is_None d = (case d of Naive wall \<Rightarrow> True | Aware wall off \<Rightarrow> False)"

definition now_utc :: "int \<Rightarrow> datetime" where
  "now_utc t = Aware t 0"

text \<open>\<^verbatim>\<open>a - b\<close> in microseconds; Python raises \<^verbatim>\<open>TypeError\<close> on a naive and an aware operand.\<close>

definition datetime_minus :: "datetime \<Rightarrow> datetime \<Rightarrow> exn + int" where
  "datetime_minus a b =
     (case (a, b) of
        (Naive x, Naive y) \<Rightarrow> Inr (x - y)
      | (Aware x ox, Aware y oy) \<Rightarrow> Inr ((x - ox) - (y - oy))
      | _ \<Rightarrow> Inl TypeError)"

text \<open>
  The first instant of the year 1 and the first instant after the year 9999, in
  microseconds from the epoch.
\<close>

definition DATETIME_MIN :: int where
  "DATETIME_MIN = - 62135596800000000"

definition DATETIME_END :: int where
  "DATETIME_END = 253402300800000000"

text \<open>
  \<^verbatim>\<open>timedelta(seconds=n)\<close> for an integer \<open>n\<close>, in microseconds: the days of a
  \<^verbatim>\<open>timedelta\<close>, \<open>n\<close> divided by 86400 and rounded down, have at most the magnitude
  999999999, or the constructor raises \<^verbatim>\<open>OverflowError\<close>.
\<close>

definition timedelta_seconds :: "int \<Rightarrow> exn + int" where
  "timedelta_seconds n =
     (if - 999999999 \<le> n div 86400 \<and> n div 86400 \<le> 999999999 then Inr (n * 1000000)
      else Inl OverflowError)"

text \<open>
  \<^verbatim>\<open>d + delta\<close> for a \<^verbatim>\<open>datetime\<close> and a \<^verbatim>\<open>timedelta\<close> in microseconds: the sum is taken
  on the wall-clock reading, the offset is kept, and a result outside the years 1 to
  9999 raises \<^verbatim>\<open>OverflowError\<close>.
\<close>

definition datetime_plus :: "datetime \<Rightarrow> int \<Rightarrow> exn + datetime" where
  "datetime_plus d delta =
     (case d of
        Naive wall \<Rightarrow>
          if DATETIME_MIN \<le> wall + delta \<and> wall + delta < DATETIME_END
          then Inr (Naive (wall + delta)) else Inl OverflowError
      | Aware wall off \<Rightarrow>
          if DATETIME_MIN \<le> wall + delta \<and> wall + delta < DATETIME_END
          then Inr (Aware (wall + delta) off) else Inl OverflowError)"

text \<open>
  Line 154, \<^verbatim>\<open>datetime.now(timezone.utc) + timedelta(seconds=expires_in)\<close>, for the
  reading \<open>now\<close> of the clock and an integer \<^verbatim>\<open>expires_in\<close>.
\<close>

definition expiry_after :: "int \<Rightarrow> int \<Rightarrow> exn + datetime" where
  "expiry_after now seconds =
     (case timedelta_seconds seconds of
        Inl e \<Rightarrow> Inl e
      | Inr delta \<Rightarrow> datetime_plus (now_utc now) delta)"

text \<open>The point in time of an aware \<^verbatim>\<open>datetime\<close>, in microseconds of UTC.\<close>

definition utc_micros :: "datetime \<Rightarrow> int" where
  "utc_micros d = (case d of Naive wall \<Rightarrow> wall | Aware wall off \<Rightarrow> wall - off)"

text \<open>
  A row of \<^verbatim>\<open>oauth_connections\<close>. The columns carry the prefix \<open>col_\<close>, since
  \<^verbatim>\<open>MicrosoftToken\<close> has fields of the same names. The timestamps written by \<^verbatim>\<open>NOW()\<close>
  are microseconds of the clock; \<^verbatim>\<open>expires_at\<close> is the \<^verbatim>\<open>datetime\<close> that the driver
  hands out and takes.
\<close>

record row =
  col_id :: string
  col_user_id :: string
  col_provider :: string
  col_access_token :: string
  col_refresh_token :: string
  col_expires_at :: datetime
  col_provider_metadata :: string
  col_is_active :: bool
  col_created_at :: int
  col_updated_at :: "int option"
  col_last_used_at :: "int option"

record MicrosoftToken =
  access_token :: string
  user_id :: string
  expires_at :: "datetime option"

definition PROVIDER :: string where
  "PROVIDER = ''microsoft''"

text \<open>
  The identity provider. The body of its reply is a JSON object, a map from field names
  to values that are strings, integers or \<^verbatim>\<open>null\<close>; the body \<open>None\<close> is one that
  \<^verbatim>\<open>response.json()\<close> cannot parse.
\<close>

datatype jv = JStr string | JInt int | JNull

record token_request =
  token_url :: string
  form :: "(string \<times> string) list"

datatype token_reply = TokenNetworkFailure | TokenReply int "(string \<rightharpoonup> jv) option"

text \<open>
  The service object and what it talks to: the Fernet cipher (decryption fails with
  \<open>None\<close>), the client credentials, the identity provider, and the clock, whose readings
  \<open>clock 0\<close>, \<open>clock 1\<close>, ... are handed out in this order to \<^verbatim>\<open>datetime.now\<close> and to
  \<^verbatim>\<open>NOW()\<close>.
\<close>

record service =
  encrypt :: "string \<Rightarrow> string"
  decrypt :: "string \<Rightarrow> string option"
  client_id :: string
  client_secret :: string
  tenant_id :: string
  idp :: "token_request \<Rightarrow> token_reply"
  clock :: "nat \<Rightarrow> int"

text \<open>
  The mutable state: the table, the keys of \<^verbatim>\<open>self._locks\<close>, whether the pool exists,
  the number of clock readings so far and the requests sent to the provider.
\<close>

record store =
  table :: "row list"
  locks :: "string set"
  pool_open :: bool
  ticks :: nat
  token_requests :: "token_request list"

definition read_clock :: "service \<Rightarrow> store \<Rightarrow> int \<times> store" where
  "read_clock svc s = (clock svc (ticks s), s\<lparr>ticks := Suc (ticks s)\<rparr>)"

text \<open>
  The \<^verbatim>\<open>SELECT\<close> of lines 83 to 92: the active rows of the user and provider, the one
  created last first, at most one row. Among rows created at the same time the first
  of the table is taken.
\<close>

definition newer :: "row \<Rightarrow> row \<Rightarrow> row" where
  "newer best x = (if col_created_at best < col_created_at x then x else best)"

definition fetchrow :: "row list \<Rightarrow> string \<Rightarrow> string \<Rightarrow> row option" where
  "fetchrow rows uid prov =
     (case filter (\<lambda>r. col_user_id r = uid \<and> col_provider r = prov \<and> col_is_active r) rows of
        [] \<Rightarrow> None
      | r # rs \<Rightarrow> Some (foldl newer r rs))"

subsection \<open>\<^verbatim>\<open>_refresh_token\<close>\<close>

text \<open>Lines 131 to 140: the request of the \<^verbatim>\<open>refresh_token\<close> grant.\<close>

definition refresh_request :: "service \<Rightarrow> string \<Rightarrow> token_request" where
  "refresh_request svc refresh_token =
     \<lparr> token_url = ''https://login.microsoftonline.com/'' @ tenant_id svc
                     @ ''/oauth2/v2.0/token'',
       form = [(''grant_type'', ''refresh_token''),
               (''refresh_token'', refresh_token),
               (''client_id'', client_id svc),
               (''client_secret'', client_secret svc),
               (''scope'', ''offline_access User.Read Mail.Read'')] \<rparr>"

text \<open>
  Lines 134 to 162. The exceptions in the order of the source: a failure of the
  transport, the error for a status other than 200, a body that is no JSON, the
  \<^verbatim>\<open>KeyError\<close> of a missing \<^verbatim>\<open>access_token\<close>, the \<^verbatim>\<open>AttributeError\<close> of
  \<^verbatim>\<open>encode\<close> on a token that is no string, and at line 154, after the clock is read,
  the \<^verbatim>\<open>TypeError\<close> of an \<^verbatim>\<open>expires_in\<close> that is no number and the
  \<^verbatim>\<open>OverflowError\<close> of an expiry outside the range of \<^verbatim>\<open>datetime\<close>. All of them are
  raised before the \<^verbatim>\<open>UPDATE\<close>.
\<close>

definition refresh_token_impl ::
  "service \<Rightarrow> string \<Rightarrow> string \<Rightarrow> store \<Rightarrow> (exn + string) \<times> store" where
  "refresh_token_impl svc refresh_token connection_id s =
     (let req = refresh_request svc refresh_token;
          s1 = s\<lparr>token_requests := token_requests s @ [req]\<rparr>
      in case idp svc req of
           TokenNetworkFailure \<Rightarrow> (Inl TransportError, s1)
         | TokenReply status_code body \<Rightarrow>
             if status_code \<noteq> 200 then
               (Inl (TokenServiceError ''Token refresh failed. Please reconnect.'' 401), s1)
             else
               (case body of
                  None \<Rightarrow> (Inl JSONDecodeError, s1)
                | Some data \<Rightarrow>
                    (case data ''access_token'' of
                       None \<Rightarrow> (Inl (KeyError ''access_token''), s1)
                     | Some new_access \<Rightarrow>
                         let new_refresh =
                               (case data ''refresh_token'' of
                                  None \<Rightarrow> JStr refresh_token | Some v \<Rightarrow> v);
                             expires_in =
                               (case data ''expires_in'' of None \<Rightarrow> JInt 3600 | Some v \<Rightarrow> v)
                         in (case new_access of
                               JStr new_access_text \<Rightarrow>
                                 (case new_refresh of
                                    JStr new_refresh_text \<Rightarrow>
                                      let encrypted_access = encrypt svc new_access_text;
                                          encrypted_refresh = encrypt svc new_refresh_text;
                                          (now, s2) = read_clock svc s1
                                      in (case expires_in of
                                            JInt seconds \<Rightarrow>
                                              (case expiry_after now seconds of
                                                 Inl e \<Rightarrow> (Inl e, s2)
                                               | Inr new_expires_at \<Rightarrow>
                                                   let (db_now, s3) = read_clock svc s2
                                                   in (Inr new_access_text,
                                                       s3\<lparr>table :=
                                                         map (\<lambda>r. if col_id r = connection_id
                                                               then r\<lparr>col_access_token := encrypted_access,
                                                                      col_refresh_token := encrypted_refresh,
                                                                      col_expires_at := new_expires_at,
                                                                      col_updated_at := Some db_now\<rparr>
                                                               else r) (table s3)\<rparr>))
                                          | _ \<Rightarrow> (Inl TypeError, s2))
                                  | _ \<Rightarrow> (Inl AttributeError, s1))
                             | _ \<Rightarrow> (Inl AttributeError, s1)))))"

subsection \<open>\<^verbatim>\<open>get_token\<close>\<close>

text \<open>Lines 113 and 114: a naive expiry is taken as UTC.\<close>

definition normalized :: "datetime \<Rightarrow> datetime" where
  "normalized d = (if tzinfo_is_None d then replace_tzinfo_utc d else d)"

definition get_token ::
  "service \<Rightarrow> string \<Rightarrow> store \<Rightarrow> (exn + MicrosoftToken) \<times> store" where
  "get_token svc uid s =
     (let s0 = s\<lparr>locks := insert uid (locks s), pool_open := True\<rparr>
      in case fetchrow (table s0) uid PROVIDER of
           None \<Rightarrow>
             (Inl (TokenServiceError
                ''No Microsoft connection found. Please connect your Outlook account.'' 404), s0)
         | Some r \<Rightarrow>
             (case (decrypt svc (col_access_token r), decrypt svc (col_refresh_token r)) of
                (Some access_token0, Some refresh_token) \<Rightarrow>
                  let connection_id = col_id r;
                      (now, s1) = read_clock svc s0;
                      expires_at1 = normalized (col_expires_at r)
                  in (case datetime_minus expires_at1 (now_utc now) of
                        Inl e \<Rightarrow> (Inl e, s1)
                      | Inr remaining \<Rightarrow>
                          (case (if remaining < 300000000
                                 then refresh_token_impl svc refresh_token connection_id s1
                                 else (Inr access_token0, s1)) of
                             (Inl e, s2) \<Rightarrow> (Inl e, s2)
                           | (Inr access_token1, s2) \<Rightarrow>
                               let (db_now, s3) = read_clock svc s2
                               in (Inr \<lparr> access_token = access_token1, user_id = uid,
                                        expires_at = Some expires_at1 \<rparr>,
                                   s3\<lparr>table :=
                                     map (\<lambda>x. if col_id x = connection_id
                                           then x\<lparr>col_last_used_at := Some db_now\<rparr> else x)
                                       (table s3)\<rparr>)))
              | _ \<Rightarrow>
                  (Inl (TokenServiceError ''Token decryption failed. Please reconnect.'' 500),
                   s0)))"

subsection \<open>Notions used in the statements about the token service\<close>

text \<open>
  The columns that \<^verbatim>\<open>get_token\<close> has no statement for: the identifier, the user, the
  provider, the metadata, the active flag and the time of creation.
\<close>

definition untouched_columns :: "row \<Rightarrow> row \<Rightarrow> bool" where
  "untouched_columns r r' =
     (col_id r' = col_id r \<and> col_user_id r' = col_user_id r \<and> col_provider r' = col_provider r
      \<and> col_provider_metadata r' = col_provider_metadata r \<and> col_is_active r' = col_is_active r
      \<and> col_created_at r' = col_created_at r)"

definition row_frame :: "string \<Rightarrow> row \<Rightarrow> row \<Rightarrow> bool" where
  "row_frame cid r r' = (untouched_columns r r' \<and> (r' = r \<or> col_id r = cid))"

text \<open>
  A service and a table for concrete runs: the cipher puts \<^verbatim>\<open>enc:\<close> in front of the
  text, the provider answers every request with status 200 and a new access token and
  nothing else, and the clock starts at \<open>1000\<close> seconds and advances by a microsecond
  per reading. The table has a row of user \<^verbatim>\<open>u1\<close>, whose naive expiry lies
  \<open>remaining\<close> microseconds after the first reading of the clock, and a row of user
  \<^verbatim>\<open>u2\<close>.
\<close>

definition demo_service :: service where
  "demo_service =
     \<lparr> encrypt = (\<lambda>t. ''enc:'' @ t),
       decrypt = (\<lambda>c. if startswith c ''enc:'' then Some (drop 4 c) else None),
       client_id = ''client'',
       client_secret = ''secret'',
       tenant_id = ''common'',
       idp = (\<lambda>req. TokenReply 200 (Some [''access_token'' \<mapsto> JStr ''fresh''])),
       clock = (\<lambda>n. 1000000000 + int n) \<rparr>"


definition demo_row :: "int \<Rightarrow> row" where
  "demo_row remaining =
     \<lparr> col_id = ''c1'', col_user_id = ''u1'', col_provider = ''microsoft'',
       col_access_token = ''enc:old'', col_refresh_token = ''enc:r0'',
       col_expires_at = Naive (1000000000 + remaining),
       col_provider_metadata = ''{}'', col_is_active = True, col_created_at = 5,
       col_updated_at = None, col_last_used_at = None \<rparr>"

definition other_row :: row where
  "other_row =
     \<lparr> col_id = ''c2'', col_user_id = ''u2'', col_provider = ''microsoft'',
       col_access_token = ''enc:other'', col_refresh_token = ''enc:r2'',
       col_expires_at = Aware 9000000000 0,
       col_provider_metadata = ''{}'', col_is_active = True, col_created_at = 7,
       col_updated_at = None, col_last_used_at = None \<rparr>"

definition demo_table :: "int \<Rightarrow> store" where
  "demo_table remaining =
     \<lparr> table = [demo_row remaining, other_row], locks = {}, pool_open = False, ticks = 0,
       token_requests = [] \<rparr>"

subsection \<open>Notions used in the statements about the tools\<close>

text \<open>
  The value of \<^verbatim>\<open>$top\<close> in a request, if it has one, and the property of a list of
  exchanges that every request with a \<^verbatim>\<open>$top\<close> asks for \<open>n\<close> items. \<open>extends n s s'\<close>
  holds when the log of \<open>s'\<close> is the log of \<open>s\<close> followed by such exchanges.
\<close>

definition requested_top :: "request \<Rightarrow> pval option" where
  "requested_top req = (case query req of None \<Rightarrow> None | Some ps \<Rightarrow> map_of ps ''$top'')"

definition tops_are :: "int \<Rightarrow> (request \<times> 'a reply) list \<Rightarrow> bool" where
  "tops_are n xs =
     (\<forall>x \<in> set xs. requested_top (fst x) = None \<or> requested_top (fst x) = Some (PInt n))"

definition extends :: "int \<Rightarrow> ('w, 'a) net \<Rightarrow> ('w, 'a) net \<Rightarrow> bool" where
  "extends n s s' = (\<exists>xs. exchanges s' = exchanges s @ xs \<and> tops_are n xs)"

text \<open>
  The search strategy in the words of the specification (section 4.3). The attempts are
  the combined search, then one search for each non-empty term of subject, from and
  query, in this order, with the label of the tier. The first attempt that succeeds
  with a non-empty result wins; a failed or empty attempt is passed over. When no
  attempt wins, the folder is fetched without a search expression or filter, most
  recent first, and a failure of that fetch is the failure of the search.
\<close>

definition spec_attempts ::
  "int \<Rightarrow> string option \<Rightarrow> string option \<Rightarrow> string option \<Rightarrow> bool option \<Rightarrow> bool option
     \<Rightarrow> (params \<times> string) list" where
  "spec_attempts count query_text subject from_address has_attachments unread_only =
     (combined_params count query_text subject from_address has_attachments unread_only,
      ''combined search'')
     # map (\<lambda>(name, v). (term_params count name (the v), name @ '' search''))
         (filter (\<lambda>(name, v). truthy v)
            [(''subject'', subject), (''from'', from_address), (''query'', query_text)])"

fun spec_first_success ::
  "('w, 'a) server \<Rightarrow> ctx \<Rightarrow> string \<Rightarrow> int \<Rightarrow> (params \<times> string) list \<Rightarrow> ('w, 'a) net
     \<Rightarrow> (('a list \<times> string) option \<times> ('w, 'a) net) option" where
  "spec_first_success srv ctx endpoint count [] s = Some (None, s)"
| "spec_first_success srv ctx endpoint count ((ps, label) # attempts) s =
     (case graph_get_paginated srv ctx endpoint count ps s of
        None \<Rightarrow> None
      | Some (Inl e, s') \<Rightarrow> spec_first_success srv ctx endpoint count attempts s'
      | Some (Inr emails, s') \<Rightarrow>
          if emails \<noteq> [] then Some (Some (emails, label), s')
          else spec_first_success srv ctx endpoint count attempts s')"

text \<open>
  The final fallback, applied to the outcome of the attempts before it: a hit is
  returned, and without a hit the folder is fetched.
\<close>

definition spec_final ::
  "('w, 'a) server \<Rightarrow> ctx \<Rightarrow> string \<Rightarrow> int
     \<Rightarrow> (('a list \<times> string) option \<times> ('w, 'a) net) option
     \<Rightarrow> ((exn + 'a list \<times> string) \<times> ('w, 'a) net) option" where
  "spec_final srv ctx endpoint count r =
     (case r of
        None \<Rightarrow> None
      | Some (Some hit, s2) \<Rightarrow> Some (Inr hit, s2)
      | Some (None, s2) \<Rightarrow>
             (case graph_get_paginated srv ctx endpoint count (base_params count) s2 of
                None \<Rightarrow> None
              | Some (Inl e, s3) \<Rightarrow> Some (Inl e, s3)
              | Some (Inr emails, s3) \<Rightarrow> Some (Inr (emails, ''recent emails fallback''), s3)))"

definition spec_search ::
  "('w, 'a) server \<Rightarrow> ('a \<Rightarrow> string option) \<Rightarrow> ctx \<Rightarrow> string option \<Rightarrow> string
     \<Rightarrow> string option \<Rightarrow> string option \<Rightarrow> bool option \<Rightarrow> bool option \<Rightarrow> int
     \<Rightarrow> ('w, 'a) net \<Rightarrow> ((exn + 'a list \<times> string) \<times> ('w, 'a) net) option" where
  "spec_search srv item_id ctx query_text folder from_address subject
       has_attachments unread_only count0 s =
     (let count = min 50 (max 1 count0);
          (endpoint, s1) = resolve_folder srv item_id ctx folder s
      in spec_final srv ctx endpoint count
           (spec_first_success srv ctx endpoint count
              (spec_attempts count query_text subject from_address
                 has_attachments unread_only) s1))"

text \<open>
  The text of the search when the formatter is applied to what the strategy of the
  specification has selected, after the selection.
\<close>

definition spec_formatted ::
  "(nat \<Rightarrow> 'a \<Rightarrow> exn + string list)
     \<Rightarrow> ((exn + 'a list \<times> string) \<times> ('w, 'a) net) option
     \<Rightarrow> ((exn + string) \<times> ('w, 'a) net) option" where
  "spec_formatted email_lines r =
     (case r of
        None \<Rightarrow> None
      | Some (Inl e, s') \<Rightarrow> Some (Inl e, s')
      | Some (Inr (emails, strategy), s') \<Rightarrow>
          (case format_search_results email_lines emails strategy of
             Inl e \<Rightarrow> Some (Inl e, s')
           | Inr text \<Rightarrow> Some (Inr text, s')))"

text \<open>
  The search strategy in which an attempt is the fetch together with the formatting
  of its result: it wins when the result is non-empty and the formatter returns a
  text, and it is passed over when the fetch fails, the result is empty or the
  formatter raises. Without a winning attempt the folder is fetched and formatted, and
  an exception of either is the failure of the search.
\<close>

fun amended_first_success ::
  "('w, 'a) server \<Rightarrow> (nat \<Rightarrow> 'a \<Rightarrow> exn + string list) \<Rightarrow> ctx \<Rightarrow> string \<Rightarrow> int
     \<Rightarrow> (params \<times> string) list \<Rightarrow> ('w, 'a) net
     \<Rightarrow> (('a list \<times> string \<times> string) option \<times> ('w, 'a) net) option" where
  "amended_first_success srv email_lines ctx endpoint count [] s = Some (None, s)"
| "amended_first_success srv email_lines ctx endpoint count ((ps, label) # attempts) s =
     (case graph_get_paginated srv ctx endpoint count ps s of
        None \<Rightarrow> None
      | Some (Inl e, s') \<Rightarrow> amended_first_success srv email_lines ctx endpoint count attempts s'
      | Some (Inr emails, s') \<Rightarrow>
          if emails \<noteq> [] then
            (case format_search_results email_lines emails label of
               Inl e \<Rightarrow> amended_first_success srv email_lines ctx endpoint count attempts s'
             | Inr text \<Rightarrow> Some (Some (emails, label, text), s'))
          else amended_first_success srv email_lines ctx endpoint count attempts s')"

definition amended_final ::
  "('w, 'a) server \<Rightarrow> (nat \<Rightarrow> 'a \<Rightarrow> exn + string list) \<Rightarrow> ctx \<Rightarrow> string \<Rightarrow> int
     \<Rightarrow> (('a list \<times> string \<times> string) option \<times> ('w, 'a) net) option
     \<Rightarrow> ((exn + 'a list \<times> string \<times> string) \<times> ('w, 'a) net) option" where
  "amended_final srv email_lines ctx endpoint count r =
     (case r of
        None \<Rightarrow> None
      | Some (Some hit, s2) \<Rightarrow> Some (Inr hit, s2)
      | Some (None, s2) \<Rightarrow>
          (case graph_get_paginated srv ctx endpoint count (base_params count) s2 of
             None \<Rightarrow> None
           | Some (Inl e, s3) \<Rightarrow> Some (Inl e, s3)
           | Some (Inr emails, s3) \<Rightarrow>
               (case format_search_results email_lines emails ''recent emails fallback'' of
                  Inl e \<Rightarrow> Some (Inl e, s3)
                | Inr text \<Rightarrow> Some (Inr (emails, ''recent emails fallback'', text), s3))))"

definition amended_search ::
  "('w, 'a) server \<Rightarrow> ('a \<Rightarrow> string option) \<Rightarrow> (nat \<Rightarrow> 'a \<Rightarrow> exn + string list) \<Rightarrow> ctx
     \<Rightarrow> string option \<Rightarrow> string \<Rightarrow> string option \<Rightarrow> string option \<Rightarrow> bool option
     \<Rightarrow> bool option \<Rightarrow> int \<Rightarrow> ('w, 'a) net
     \<Rightarrow> ((exn + 'a list \<times> string \<times> string) \<times> ('w, 'a) net) option" where
  "amended_search srv item_id email_lines ctx query_text folder from_address subject
       has_attachments unread_only count0 s =
     (let count = min 50 (max 1 count0);
          (endpoint, s1) = resolve_folder srv item_id ctx folder s
      in amended_final srv email_lines ctx endpoint count
           (amended_first_success srv email_lines ctx endpoint count
              (spec_attempts count query_text subject from_address
                 has_attachments unread_only) s1))"

text \<open>The text in a result of the body of the tool.\<close>

definition text_of ::
  "((exn + 'a list \<times> string \<times> string) \<times> ('w, 'a) net) option
     \<Rightarrow> ((exn + string) \<times> ('w, 'a) net) option" where
  "text_of r =
     (case r of
        None \<Rightarrow> None
      | Some (Inl e, s') \<Rightarrow> Some (Inl e, s')
      | Some (Inr (emails, strategy, t), s') \<Rightarrow> Some (Inr t, s'))"

text \<open>
  A mailbox for concrete runs. A search for the subject \<^verbatim>\<open>invoice\<close> alone finds the
  messages 1 and 2, every other search finds nothing, and a request without a search
  expression gets the messages 7, 8 and 9. \<open>broken_mailbox\<close> answers searches in the
  same way and every request without a search expression with status 503.
\<close>

definition search_of :: "request \<Rightarrow> pval option" where
  "search_of req = (case query req of None \<Rightarrow> None | Some ps \<Rightarrow> map_of ps ''$search'')"

definition mailbox :: "(nat, nat) server" where
  "mailbox w req =
     (Reply 200 (Some \<lparr> value = Some (if search_of req = Some (PStr (''subject:'' @ quoted ''invoice''))
                                        then [1, 2]
                                        else if search_of req = None then [7, 8, 9] else []),
                        nextLink = None \<rparr>),
      Suc w)"

definition broken_mailbox :: "(nat, nat) server" where
  "broken_mailbox w req =
     (if search_of req = None then (Reply 503 None, Suc w) else mailbox w req)"

definition no_item_id :: "nat \<Rightarrow> string option" where
  "no_item_id n = None"

text \<open>
  The line printed for one message in concrete runs, and a formatter that raises on
  the message 1.
\<close>

definition demo_lines :: "nat \<Rightarrow> nat \<Rightarrow> exn + string list" where
  "demo_lines i email = Inr [str_nat i @ ''. message '' @ str_nat email]"

definition picky_lines :: "nat \<Rightarrow> nat \<Rightarrow> exn + string list" where
  "picky_lines i email = (if email = 1 then Inl TypeError else demo_lines i email)"

section \<open>The authenticated client\<close>

subsection \<open>An induction rule for the pagination loop\<close>

lemma paginate_induct [consumes 1, case_names full fail last_page continue]:
  assumes run: "paginate srv ctx m acc e p s = Some (res, s')"
      and full: "\<And>acc e p s. \<not> int (length acc) < m \<Longrightarrow> Q acc e p s (Inr (slice_to acc m)) s"
      and fail: "\<And>acc e p s err s1. int (length acc) < m \<Longrightarrow>
                   graph_get srv ctx e p s = (Inl err, s1) \<Longrightarrow> Q acc e p s (Inl err) s1"
      and last_page: "\<And>acc e p s pg s1. int (length acc) < m \<Longrightarrow>
                   graph_get srv ctx e p s = (Inr pg, s1) \<Longrightarrow>
                   \<not> truthy (nextLink pg) \<or> m \<le> int (length (acc @ page_items pg)) \<Longrightarrow>
                   Q acc e p s (Inr (slice_to (acc @ page_items pg) m)) s1"
      and continue: "\<And>acc e p s pg s1 res s'. int (length acc) < m \<Longrightarrow>
                   graph_get srv ctx e p s = (Inr pg, s1) \<Longrightarrow>
                   truthy (nextLink pg) \<Longrightarrow> int (length (acc @ page_items pg)) < m \<Longrightarrow>
                   Q (acc @ page_items pg) (the (nextLink pg)) [] s1 res s' \<Longrightarrow>
                   Q acc e p s res s'"
  shows "Q acc e p s res s'"
proof -
  have "srv' = srv \<and> ctx' = ctx \<and> m' = m \<longrightarrow> Q acc e p s (fst y) (snd y)"
    if "paginate srv' ctx' m' acc e p s = Some y" for srv' ctx' m' y
    using that
  proof (induction srv' ctx' m' acc e p s y rule: paginate.raw_induct [rotated 1, consumes 1])
    case (1 pag srv' ctx' m' acc e p s y)
    show ?case
    proof (intro impI)
      assume eq: "srv' = srv \<and> ctx' = ctx \<and> m' = m"
      show "Q acc e p s (fst y) (snd y)"
      proof (cases "int (length acc) < m")
        case False
        with 1(2) eq full [of acc e p s] show ?thesis by auto
      next
        case True
        obtain r s1 where g: "graph_get srv ctx e p s = (r, s1)"
          by (cases "graph_get srv ctx e p s") auto
        show ?thesis
        proof (cases r)
          case (Inl err)
          with 1(2) eq True g fail [of acc e p s err s1] show ?thesis by auto
        next
          case (Inr pg)
          show ?thesis
          proof (cases "\<not> truthy (nextLink pg) \<or> m \<le> int (length (acc @ page_items pg))")
            case stop: True
            with 1(2) eq True g Inr last_page [of acc e p s pg s1] show ?thesis
              by (auto simp: Let_def)
          next
            case go: False
            with 1(2) eq True g Inr
            have rec: "pag srv ctx m (acc @ page_items pg) (the (nextLink pg)) [] s1 = Some y"
              by (auto simp: Let_def)
            from 1(1) [OF rec]
            have ih: "Q (acc @ page_items pg) (the (nextLink pg)) [] s1 (fst y) (snd y)"
              by simp
            from go have go': "truthy (nextLink pg)" "int (length (acc @ page_items pg)) < m"
              by auto
            from continue [OF True g [unfolded Inr] go' ih] show ?thesis .
          qed
        qed
      qed
    qed
  qed
  from this [OF run] show ?thesis by simp
qed


lemma graph_get_cases:
  assumes "graph_get srv ctx e p s = (r, s1)"
  shows "(\<not> truthy (microsoft_token ctx) \<and> s1 = s \<and> r = Inl AuthMissing)
       \<or> (truthy (microsoft_token ctx)
           \<and> exchanges s1 = exchanges s @ [(graph_request (the (microsoft_token ctx)) e p,
                       fst (srv (remote s) (graph_request (the (microsoft_token ctx)) e p)))]
           \<and> remote s1 = snd (srv (remote s) (graph_request (the (microsoft_token ctx)) e p))
           \<and> r = check_response (fst (srv (remote s) (graph_request (the (microsoft_token ctx)) e p))))"
  using assms by (auto simp: graph_get_def Let_def AuthMissing_def split: prod.splits if_splits)

lemma fetched_Nil [simp]: "fetched [] = []"
  by (simp add: fetched_def)

lemma fetched_Cons [simp]: "fetched (x # xs) = reply_items (snd x) @ fetched xs"
  by (simp add: fetched_def)

lemma trace_ok_Nil_full: "\<not> int (length acc) < m \<Longrightarrow> trace_ok ctx m acc e p [] (Inr (slice_to acc m))"
  by (simp add: trace_ok_def)

lemma trace_ok_Nil_unbound:
  "int (length acc) < m \<Longrightarrow> \<not> truthy (microsoft_token ctx) \<Longrightarrow> trace_ok ctx m acc e p [] (Inl AuthMissing)"
  by (simp add: trace_ok_def)

lemma trace_ok_single_fail:
  "int (length acc) < m \<Longrightarrow> truthy (microsoft_token ctx) \<Longrightarrow> check_response rep = Inl err \<Longrightarrow>
   trace_ok ctx m acc e p [(graph_request (the (microsoft_token ctx)) e p, rep)] (Inl err)"
  by (simp add: trace_ok_def)

lemma trace_ok_single_page:
  "int (length acc) < m \<Longrightarrow> truthy (microsoft_token ctx) \<Longrightarrow> check_response rep = Inr pg \<Longrightarrow>
   \<not> truthy (nextLink pg) \<or> m \<le> int (length (acc @ page_items pg)) \<Longrightarrow>
   trace_ok ctx m acc e p [(graph_request (the (microsoft_token ctx)) e p, rep)]
     (Inr (slice_to (acc @ page_items pg) m))"
  by (auto simp: trace_ok_def reply_items_def continues_def)


lemma trace_ok_nonempty:
  assumes "trace_ok ctx m acc e p xs res" "int (length acc) < m" "truthy (microsoft_token ctx)"
  shows "xs \<noteq> []"
  using assms by (cases res) (auto simp: trace_ok_def)

lemma trace_ok_Cons:
  assumes lt: "int (length acc) < m"
      and tok: "truthy (microsoft_token ctx)"
      and rep: "check_response rep = Inr pg"
      and link: "truthy (nextLink pg)"
      and lt': "int (length (acc @ page_items pg)) < m"
      and ih: "trace_ok ctx m (acc @ page_items pg) (the (nextLink pg)) [] xs res"
  shows "trace_ok ctx m acc e p ((graph_request (the (microsoft_token ctx)) e p, rep) # xs) res"
proof -
  let ?x = "(graph_request (the (microsoft_token ctx)) e p, rep)"
  have ne: "xs \<noteq> []" using ih lt' tok by (rule trace_ok_nonempty)
  have ri: "reply_items rep = page_items pg" by (simp add: reply_items_def rep)
  have co: "continues rep" by (simp add: continues_def rep link)
  have lk: "link_of rep = the (nextLink pg)" by (simp add: link_of_def rep)
  from ih have a: "\<forall>k<length xs. int (length ((acc @ page_items pg) @ fetched (take k xs))) < m"
    unfolding trace_ok_def by (rule conjunct1)
  from ih have b: "\<forall>k. Suc k < length xs \<longrightarrow> continues (snd (xs ! k))
          \<and> fst (xs ! Suc k) = graph_request (the (microsoft_token ctx)) (link_of (snd (xs ! k))) []"
    unfolding trace_ok_def by blast
  from ih ne have c: "fst (hd xs) = graph_request (the (microsoft_token ctx)) (the (nextLink pg)) []"
    unfolding trace_ok_def by blast
  from ih have d: "(case res of
         Inl err \<Rightarrow> int (length (acc @ page_items pg)) < m
            \<and> (if xs = [] then \<not> truthy (microsoft_token ctx) \<and> err = AuthMissing
                else check_response (snd (last xs)) = Inl err)
       | Inr items \<Rightarrow> items = slice_to ((acc @ page_items pg) @ fetched xs) m
            \<and> (if xs = [] then \<not> int (length (acc @ page_items pg)) < m
                else (\<exists>pg. check_response (snd (last xs)) = Inr pg)
                     \<and> (\<not> continues (snd (last xs))
                          \<or> m \<le> int (length ((acc @ page_items pg) @ fetched xs)))))"
    unfolding trace_ok_def by blast
  have A: "\<forall>k<length (?x # xs). int (length (acc @ fetched (take k (?x # xs)))) < m"
  proof (intro allI impI)
    fix k assume "k < length (?x # xs)"
    then show "int (length (acc @ fetched (take k (?x # xs)))) < m"
      using lt a by (cases k) (simp_all add: ri)
  qed
  have B: "\<forall>k. Suc k < length (?x # xs) \<longrightarrow> continues (snd ((?x # xs) ! k))
          \<and> fst ((?x # xs) ! Suc k)
              = graph_request (the (microsoft_token ctx)) (link_of (snd ((?x # xs) ! k))) []"
  proof (intro allI impI)
    fix k assume k: "Suc k < length (?x # xs)"
    show "continues (snd ((?x # xs) ! k))
          \<and> fst ((?x # xs) ! Suc k)
              = graph_request (the (microsoft_token ctx)) (link_of (snd ((?x # xs) ! k))) []"
    proof (cases k)
      case 0
      with ne c co lk show ?thesis by (simp add: hd_conv_nth)
    next
      case (Suc j)
      with k b show ?thesis by simp
    qed
  qed
  have C: "?x # xs \<noteq> [] \<longrightarrow> fst (hd (?x # xs)) = graph_request (the (microsoft_token ctx)) e p
          \<and> truthy (microsoft_token ctx)"
    using tok by simp
  have D: "(case res of
         Inl err \<Rightarrow> int (length acc) < m
            \<and> (if ?x # xs = [] then \<not> truthy (microsoft_token ctx) \<and> err = AuthMissing
                else check_response (snd (last (?x # xs))) = Inl err)
       | Inr items \<Rightarrow> items = slice_to (acc @ fetched (?x # xs)) m
            \<and> (if ?x # xs = [] then \<not> int (length acc) < m
                else (\<exists>pg. check_response (snd (last (?x # xs))) = Inr pg)
                     \<and> (\<not> continues (snd (last (?x # xs)))
                          \<or> m \<le> int (length (acc @ fetched (?x # xs))))))"
    using d ne lt by (cases res) (simp_all add: ri)
  from A B C D show ?thesis unfolding trace_ok_def by blast
qed

lemma paginate_trace:
  assumes "paginate srv ctx m acc e p s = Some (res, s')"
  shows "\<exists>xs. exchanges s' = exchanges s @ xs \<and> trace_ok ctx m acc e p xs res"
  using assms
proof (induction rule: paginate_induct)
  case (full acc e p s)
  then show ?case using trace_ok_Nil_full [of acc m ctx e p] by simp
next
  case (fail acc e p s err s1)
  from graph_get_cases [OF fail(2)] show ?case
  proof
    assume "\<not> truthy (microsoft_token ctx) \<and> s1 = s \<and> Inl err = Inl AuthMissing"
    with fail(1) trace_ok_Nil_unbound [of acc m ctx e p] show ?thesis by auto
  next
    assume h: "truthy (microsoft_token ctx)
           \<and> exchanges s1 = exchanges s @ [(graph_request (the (microsoft_token ctx)) e p,
                       fst (srv (remote s) (graph_request (the (microsoft_token ctx)) e p)))]
           \<and> remote s1 = snd (srv (remote s) (graph_request (the (microsoft_token ctx)) e p))
           \<and> Inl err = check_response (fst (srv (remote s) (graph_request (the (microsoft_token ctx)) e p)))"
    then have "trace_ok ctx m acc e p [(graph_request (the (microsoft_token ctx)) e p,
                       fst (srv (remote s) (graph_request (the (microsoft_token ctx)) e p)))] (Inl err)"
      using fail(1) by (intro trace_ok_single_fail) simp_all
    with h show ?thesis by blast
  qed
next
  case (last_page acc e p s pg s1)
  from graph_get_cases [OF last_page(2)] show ?case
  proof
    assume "\<not> truthy (microsoft_token ctx) \<and> s1 = s \<and> Inr pg = Inl AuthMissing"
    then show ?thesis by simp
  next
    assume h: "truthy (microsoft_token ctx)
           \<and> exchanges s1 = exchanges s @ [(graph_request (the (microsoft_token ctx)) e p,
                       fst (srv (remote s) (graph_request (the (microsoft_token ctx)) e p)))]
           \<and> remote s1 = snd (srv (remote s) (graph_request (the (microsoft_token ctx)) e p))
           \<and> Inr pg = check_response (fst (srv (remote s) (graph_request (the (microsoft_token ctx)) e p)))"
    then have "trace_ok ctx m acc e p [(graph_request (the (microsoft_token ctx)) e p,
                       fst (srv (remote s) (graph_request (the (microsoft_token ctx)) e p)))]
                 (Inr (slice_to (acc @ page_items pg) m))"
      using last_page(1,3) by (intro trace_ok_single_page) simp_all
    with h show ?thesis by blast
  qed
next
  case (continue acc e p s pg s1 res s')
  from continue(5) obtain xs where xs: "exchanges s' = exchanges s1 @ xs"
    and ok: "trace_ok ctx m (acc @ page_items pg) (the (nextLink pg)) [] xs res" by blast
  from graph_get_cases [OF continue(2)] show ?case
  proof
    assume "\<not> truthy (microsoft_token ctx) \<and> s1 = s \<and> Inr pg = Inl AuthMissing"
    then show ?thesis by simp
  next
    assume h: "truthy (microsoft_token ctx)
           \<and> exchanges s1 = exchanges s @ [(graph_request (the (microsoft_token ctx)) e p,
                       fst (srv (remote s) (graph_request (the (microsoft_token ctx)) e p)))]
           \<and> remote s1 = snd (srv (remote s) (graph_request (the (microsoft_token ctx)) e p))
           \<and> Inr pg = check_response (fst (srv (remote s) (graph_request (the (microsoft_token ctx)) e p)))"
    then have "trace_ok ctx m acc e p ((graph_request (the (microsoft_token ctx)) e p,
                       fst (srv (remote s) (graph_request (the (microsoft_token ctx)) e p))) # xs) res"
      using continue(1,3,4) ok by (intro trace_ok_Cons) simp_all
    with h xs show ?thesis by simp
  qed
qed

subsection \<open>Termination of the pagination loop\<close>

lemma paginate_terminates_wf:
  assumes wf: "wf (continuation srv tok)"
      and tok: "microsoft_token ctx = Some tok"
  shows "\<exists>r. paginate srv ctx m acc e p s = Some r"
proof -
  have "\<forall>acc e p s. x = (remote s, graph_request tok e p) \<longrightarrow>
          (\<exists>r. paginate srv ctx m acc e p s = Some r)" for x
    using wf
  proof (induction x rule: wf_induct_rule)
    case (less x)
    show ?case
    proof (intro allI impI)
      fix acc e p and s :: "('a, 'b) net"
      assume x: "x = (remote s, graph_request tok e p)"
      let ?req = "graph_request tok e p"
      let ?rep = "fst (srv (remote s) ?req)"
      let ?w' = "snd (srv (remote s) ?req)"
      let ?s1 = "\<lparr> remote = ?w', exchanges = exchanges s @ [(?req, ?rep)] \<rparr>"
      show "\<exists>r. paginate srv ctx m acc e p s = Some r"
      proof (cases "int (length acc) < m")
        case False
        then show ?thesis by (subst paginate.simps) simp
      next
        case True
        show ?thesis
        proof (cases "truthy (Some tok)")
          case False
          with True tok show ?thesis
            by (subst paginate.simps) (simp add: graph_get_def)
        next
          case t: True
          have g: "graph_get srv ctx e p s = (check_response ?rep, ?s1)"
            using t tok by (simp add: graph_get_def Let_def split: prod.splits)
          show ?thesis
          proof (cases "check_response ?rep")
            case (Inl err)
            with True g show ?thesis by (subst paginate.simps) simp
          next
            case (Inr pg)
            show ?thesis
            proof (cases "\<not> truthy (nextLink pg) \<or> m \<le> int (length (acc @ page_items pg))")
              case stop: True
              with True g Inr show ?thesis
                by (subst paginate.simps) (auto simp: Let_def)
            next
              case go: False
              have "((?w', graph_request tok (the (nextLink pg)) []), x) \<in> continuation srv tok"
                using go Inr x by (simp add: continuation_def continues_def link_of_def)
              from less.IH [OF this]
              have "\<exists>r. paginate srv ctx m (acc @ page_items pg) (the (nextLink pg)) [] ?s1 = Some r"
                by simp
              with True g Inr go show ?thesis
                by (subst paginate.simps) (auto simp: Let_def)
            qed
          qed
        qed
      qed
    qed
  qed
  then show ?thesis by blast
qed

lemma paginate_unbound:
  assumes "\<not> truthy (microsoft_token ctx)"
  shows "\<exists>r. paginate srv ctx m acc e p s = Some r"
  using assms by (subst paginate.simps) (simp add: graph_get_def)

lemma paginate_terminates_nonempty:
  assumes ne: "nonempty_continuations srv"
  shows "\<exists>r. paginate srv ctx m acc e p s = Some r"
proof (induction "nat (m - int (length acc))" arbitrary: acc e p s rule: less_induct)
  case less
  show ?case
  proof (cases "int (length acc) < m")
    case False
    then show ?thesis by (subst paginate.simps) simp
  next
    case True
    obtain r s1 where g: "graph_get srv ctx e p s = (r, s1)"
      by (cases "graph_get srv ctx e p s") auto
    show ?thesis
    proof (cases r)
      case (Inl err)
      with True g show ?thesis by (subst paginate.simps) simp
    next
      case (Inr pg)
      show ?thesis
      proof (cases "\<not> truthy (nextLink pg) \<or> m \<le> int (length (acc @ page_items pg))")
        case stop: True
        with True g Inr show ?thesis
          by (subst paginate.simps) (auto simp: Let_def)
      next
        case go: False
        from graph_get_cases [OF g] Inr
        have rep: "check_response (fst (srv (remote s) (graph_request (the (microsoft_token ctx)) e p))) = Inr pg"
          by auto
        with go have "continues (fst (srv (remote s) (graph_request (the (microsoft_token ctx)) e p)))"
          by (simp add: continues_def)
        with ne have "reply_items (fst (srv (remote s) (graph_request (the (microsoft_token ctx)) e p))) \<noteq> []"
          unfolding nonempty_continuations_def by blast
        with rep have "page_items pg \<noteq> []" by (simp add: reply_items_def)
        then have "length (page_items pg) > 0" by simp
        with go have "nat (m - int (length (acc @ page_items pg))) < nat (m - int (length acc))"
          by simp
        from less [OF this]
        have "\<exists>r. paginate srv ctx m (acc @ page_items pg) (the (nextLink pg)) [] s1 = Some r" .
        with True g Inr go show ?thesis
          by (subst paginate.simps) (auto simp: Let_def)
      qed
    qed
  qed
qed

lemma paginate_diverges:
  assumes stuck: "\<forall>w req. continues (fst (srv w req)) \<and> reply_items (fst (srv w req)) = []"
      and tok: "truthy (microsoft_token ctx)"
      and lt: "int (length acc) < m"
  shows "paginate srv ctx m acc e p s = None"
proof (cases "paginate srv ctx m acc e p s")
  case None
  then show ?thesis .
next
  case (Some y)
  obtain res s' where y: "y = (res, s')" by (cases y)
  from Some y have run: "paginate srv ctx m acc e p s = Some (res, s')" by simp
  have st: "check_response (fst (srv w req)) = Inr pg \<Longrightarrow> truthy (nextLink pg) \<and> page_items pg = []"
    for w req pg
    using stuck [rule_format, of w req] by (simp add: continues_def reply_items_def)
  have st2: "check_response (fst (srv w req)) \<noteq> Inl err" for w req err
    using stuck [rule_format, of w req] by (auto simp: continues_def)
  from run have "int (length acc) < m \<longrightarrow> False"
  proof (induction rule: paginate_induct)
    case (full acc e p s)
    then show ?case by simp
  next
    case (fail acc e p s err s1)
    from graph_get_cases [OF fail(2)] tok st2 show ?case by metis
  next
    case (last_page acc e p s pg s1)
    from graph_get_cases [OF last_page(2)] tok
    have "Inr pg = check_response (fst (srv (remote s) (graph_request (the (microsoft_token ctx)) e p)))"
      by blast
    from st [OF this [symmetric]] last_page(1,3) show ?case by simp
  next
    case (continue acc e p s pg s1 res s')
    then show ?case by blast
  qed
  with lt show ?thesis by blast
qed

subsection \<open>\<^verbatim>\<open>graph_get\<close> and the continuation requests\<close>

lemmas graph_simps = graph_get_paginated_def paginate.simps graph_get_def check_response_def
  graph_request_def page_items_def slice_to_def startswith_def GRAPH_BASE_URL_def Let_def

lemmas source_simps = endless_source_def finite_source_def stuck_source_def bound_ctx_def
  unbound_ctx_def fresh_net_def

text \<open>
  Claim C6. Without a bearer token in the context (none, or an empty one) \<^verbatim>\<open>graph_get\<close>
  raises the \<^verbatim>\<open>ToolError\<close> for missing authentication and the state is as before, so
  no request was sent. With a token exactly one request is sent, and the reply decides:
  status 401 raises the \<^verbatim>\<open>ToolError\<close> of an expired session, every other status from
  400 on raises the \<^verbatim>\<open>ToolError\<close> whose message ends with that status, and a status
  below 400 returns the parsed body.
\<close>

theorem graph_get_outcomes:
  "(\<not> truthy (microsoft_token ctx) \<longrightarrow>
      graph_get srv ctx endpoint params s =
        (Inl (ToolError
           ''Microsoft authentication required. Please connect your Outlook account.''), s))
   \<and> (truthy (microsoft_token ctx) \<longrightarrow>
        (let req = graph_request (the (microsoft_token ctx)) endpoint params;
             response = fst (srv (remote s) req)
         in exchanges (snd (graph_get srv ctx endpoint params s)) = exchanges s @ [(req, response)]
          \<and> (\<forall>body. response = Reply 401 body \<longrightarrow>
                fst (graph_get srv ctx endpoint params s) =
                  Inl (ToolError ''Session expired. Please reconnect your Outlook account.''))
          \<and> (\<forall>status body. response = Reply status body \<and> status \<ge> 400 \<and> status \<noteq> 401 \<longrightarrow>
                fst (graph_get srv ctx endpoint params s) =
                  Inl (ToolError (''Microsoft Graph API error: '' @ str_int status)))
          \<and> (\<forall>status data. response = Reply status (Some data) \<and> status < 400 \<longrightarrow>
                fst (graph_get srv ctx endpoint params s) = Inr data)))"
  by (auto simp: graph_get_def check_response_def Let_def split: prod.splits)

theorem graph_get_outcomes_witness:
  "truthy (microsoft_token bound_ctx)
   \<and> fst (graph_get (\<lambda>w req. (Reply 404 None, w)) bound_ctx ''me/messages'' [] fresh_net)
       = Inl (ToolError ''Microsoft Graph API error: 404'')
   \<and> fst (graph_get (\<lambda>w req. (Reply 401 None, w)) bound_ctx ''me/messages'' [] fresh_net)
       = Inl (ToolError ''Session expired. Please reconnect your Outlook account.'')
   \<and> length (exchanges (snd (graph_get (\<lambda>w req. (Reply 404 None, w)) unbound_ctx
         ''me/messages'' [] fresh_net))) = 0"
  using graph_get_outcomes [of bound_ctx "\<lambda>w req. (Reply 404 None, w)" "''me/messages''" "[]" fresh_net]
        graph_get_outcomes [of bound_ctx "\<lambda>w req. (Reply 401 None, w)" "''me/messages''" "[]" fresh_net]
        graph_get_outcomes [of unbound_ctx "\<lambda>w req. (Reply 404 None, w)" "''me/messages''" "[]" fresh_net]
  by (simp add: source_simps Let_def str_int_def str_nat.simps digit_char_def)

lemma paginated_trace:
  assumes "graph_get_paginated srv ctx e m p s = Some (res, s')"
  shows "\<exists>xs. exchanges s' = exchanges s @ xs \<and> trace_ok ctx m [] e p xs res"
  using assms unfolding graph_get_paginated_def by (rule paginate_trace)

text \<open>
  Claim C4. For an endpoint that starts with \<^verbatim>\<open>http\<close>, \<^verbatim>\<open>graph_get\<close> does the same
  whatever parameters it is given, and the request it sends has the endpoint as its
  URL and no parameters. In a run of \<^verbatim>\<open>graph_get_paginated\<close> every request after the
  first is the one that \<^verbatim>\<open>graph_get\<close> builds from the continuation link of the reply
  before it and the empty parameters, so it carries no parameters or empty ones.
\<close>

theorem continuation_reference_verbatim:
  "(startswith endpoint ''http'' \<longrightarrow>
       graph_get srv ctx endpoint params s = graph_get srv ctx endpoint params' s
       \<and> (truthy (microsoft_token ctx) \<longrightarrow>
            (\<exists>response. exchanges (snd (graph_get srv ctx endpoint params s)) =
               exchanges s @ [(\<lparr> url = endpoint,
                                 authorization = ''Bearer '' @ the (microsoft_token ctx),
                                 query = None \<rparr>, response)])))
   \<and> (\<forall>res s'. graph_get_paginated srv ctx endpoint max_count params s = Some (res, s') \<longrightarrow>
        (\<exists>xs. exchanges s' = exchanges s @ xs
           \<and> (\<forall>k. Suc k < length xs \<longrightarrow>
                 fst (xs ! Suc k) =
                   graph_request (the (microsoft_token ctx)) (link_of (snd (xs ! k))) []
                 \<and> (query (fst (xs ! Suc k)) = None \<or> query (fst (xs ! Suc k)) = Some []))))"
proof (intro conjI allI impI)
  assume "startswith endpoint ''http''"
  then show "graph_get srv ctx endpoint params s = graph_get srv ctx endpoint params' s"
    by (simp add: graph_get_def graph_request_def)
next
  assume "startswith endpoint ''http''" "truthy (microsoft_token ctx)"
  then show "\<exists>response. exchanges (snd (graph_get srv ctx endpoint params s)) =
               exchanges s @ [(\<lparr> url = endpoint,
                                 authorization = ''Bearer '' @ the (microsoft_token ctx),
                                 query = None \<rparr>, response)]"
    by (simp add: graph_get_def graph_request_def Let_def split: prod.splits)
next
  fix res s'
  assume "graph_get_paginated srv ctx endpoint max_count params s = Some (res, s')"
  from paginated_trace [OF this] obtain xs where xs: "exchanges s' = exchanges s @ xs"
    and ok: "trace_ok ctx max_count [] endpoint params xs res" by blast
  from ok have links: "\<forall>k. Suc k < length xs \<longrightarrow>
      fst (xs ! Suc k) = graph_request (the (microsoft_token ctx)) (link_of (snd (xs ! k))) []"
    unfolding trace_ok_def by blast
  have "query (graph_request t l []) = None \<or> query (graph_request t l []) = Some []" for t l
    by (simp add: graph_request_def)
  with links have "\<forall>k. Suc k < length xs \<longrightarrow>
                 fst (xs ! Suc k) =
                   graph_request (the (microsoft_token ctx)) (link_of (snd (xs ! k))) []
                 \<and> (query (fst (xs ! Suc k)) = None \<or> query (fst (xs ! Suc k)) = Some [])"
    by metis
  with xs show "\<exists>xs. exchanges s' = exchanges s @ xs
           \<and> (\<forall>k. Suc k < length xs \<longrightarrow>
                 fst (xs ! Suc k) =
                   graph_request (the (microsoft_token ctx)) (link_of (snd (xs ! k))) []
                 \<and> (query (fst (xs ! Suc k)) = None \<or> query (fst (xs ! Suc k)) = Some []))"
    by blast
qed

lemma endless_run:
  "graph_get_paginated endless_source bound_ctx ''me/messages'' 25 [(''$top'', PInt 25)] fresh_net
   = Some (Inr [0..<25],
       \<lparr> remote = 30,
         exchanges =
          [(\<lparr>url = ''https://graph.microsoft.com/v1.0/me/messages'',
             authorization = ''Bearer tok'', query = Some [(''$top'', PInt 25)]\<rparr>,
            Reply 200 (Some \<lparr>value = Some [0..<10],
                nextLink = Some ''https://graph.microsoft.com/v1.0/next''\<rparr>)),
           (\<lparr>url = ''https://graph.microsoft.com/v1.0/next'',
             authorization = ''Bearer tok'', query = None\<rparr>,
            Reply 200 (Some \<lparr>value = Some [10..<20],
                nextLink = Some ''https://graph.microsoft.com/v1.0/next''\<rparr>)),
           (\<lparr>url = ''https://graph.microsoft.com/v1.0/next'',
             authorization = ''Bearer tok'', query = None\<rparr>,
            Reply 200 (Some \<lparr>value = Some [20..<30],
                nextLink = Some ''https://graph.microsoft.com/v1.0/next''\<rparr>))] \<rparr>)"
  by (simp add: graph_simps source_simps upt_rec)

subsection \<open>\<^verbatim>\<open>graph_get_paginated\<close>\<close>

text \<open>
  Claim C3, for \<open>max_count \<ge> 1\<close>. \<^verbatim>\<open>graph_get_paginated\<close> returns when the pages
  behind every request are finitely many (the continuation relation of the service is
  well-founded). Whenever it returns, the exchanges \<open>xs\<close> of the call are such that
  fewer than \<open>max_count\<close> items were accumulated before each request, every reply but
  the last is a page with a continuation link, and the last reply ends the call: an
  exception of \<^verbatim>\<open>graph_get\<close> is the result as it is, with no items, and otherwise the
  last reply is a page without continuation link or one that fills the count, and the
  result is the first \<open>max_count\<close> of all items accumulated.
\<close>

theorem graph_get_paginated_spec:
  assumes m: "1 \<le> max_count"
  shows "((\<forall>tok. microsoft_token ctx = Some tok \<longrightarrow> wf (continuation srv tok)) \<longrightarrow>
            (\<exists>r. graph_get_paginated srv ctx endpoint max_count params s = Some r))
   \<and> (\<forall>res s'. graph_get_paginated srv ctx endpoint max_count params s = Some (res, s') \<longrightarrow>
        (\<exists>xs. exchanges s' = exchanges s @ xs
           \<and> (\<forall>k<length xs. int (length (fetched (take k xs))) < max_count)
           \<and> (\<forall>k. Suc k < length xs \<longrightarrow> continues (snd (xs ! k)))
           \<and> (case res of
                 Inl err \<Rightarrow>
                   (if xs = [] then \<not> truthy (microsoft_token ctx) \<and> err = ToolError
                      ''Microsoft authentication required. Please connect your Outlook account.''
                    else check_response (snd (last xs)) = Inl err)
               | Inr items \<Rightarrow>
                   xs \<noteq> [] \<and> items = take (nat max_count) (fetched xs)
                   \<and> (\<exists>pg. check_response (snd (last xs)) = Inr pg)
                   \<and> (\<not> continues (snd (last xs))
                        \<or> max_count \<le> int (length (fetched xs))))))"
proof (intro conjI allI impI)
  assume wf: "\<forall>tok. microsoft_token ctx = Some tok \<longrightarrow> wf (continuation srv tok)"
  show "\<exists>r. graph_get_paginated srv ctx endpoint max_count params s = Some r"
  proof (cases "microsoft_token ctx")
    case None
    then have "\<not> truthy (microsoft_token ctx)" by simp
    then show ?thesis unfolding graph_get_paginated_def by (rule paginate_unbound)
  next
    case (Some tok)
    with wf have "wf (continuation srv tok)" by blast
    then show ?thesis unfolding graph_get_paginated_def
      using Some by (rule paginate_terminates_wf)
  qed
next
  fix res s'
  assume "graph_get_paginated srv ctx endpoint max_count params s = Some (res, s')"
  from paginated_trace [OF this] obtain xs where xs: "exchanges s' = exchanges s @ xs"
    and ok: "trace_ok ctx max_count [] endpoint params xs res" by blast
  from ok have a: "\<forall>k<length xs. int (length (fetched (take k xs))) < max_count"
    unfolding trace_ok_def by simp
  from ok have b: "\<forall>k. Suc k < length xs \<longrightarrow> continues (snd (xs ! k))"
    unfolding trace_ok_def by blast
  from ok m have c: "(case res of
                 Inl err \<Rightarrow>
                   (if xs = [] then \<not> truthy (microsoft_token ctx) \<and> err = ToolError
                      ''Microsoft authentication required. Please connect your Outlook account.''
                    else check_response (snd (last xs)) = Inl err)
               | Inr items \<Rightarrow>
                   xs \<noteq> [] \<and> items = take (nat max_count) (fetched xs)
                   \<and> (\<exists>pg. check_response (snd (last xs)) = Inr pg)
                   \<and> (\<not> continues (snd (last xs))
                        \<or> max_count \<le> int (length (fetched xs))))"
    unfolding trace_ok_def by (cases res) (auto simp: AuthMissing_def slice_to_def split: if_splits)
  from xs a b c show "\<exists>xs. exchanges s' = exchanges s @ xs
           \<and> (\<forall>k<length xs. int (length (fetched (take k xs))) < max_count)
           \<and> (\<forall>k. Suc k < length xs \<longrightarrow> continues (snd (xs ! k)))
           \<and> (case res of
                 Inl err \<Rightarrow>
                   (if xs = [] then \<not> truthy (microsoft_token ctx) \<and> err = ToolError
                      ''Microsoft authentication required. Please connect your Outlook account.''
                    else check_response (snd (last xs)) = Inl err)
               | Inr items \<Rightarrow>
                   xs \<noteq> [] \<and> items = take (nat max_count) (fetched xs)
                   \<and> (\<exists>pg. check_response (snd (last xs)) = Inr pg)
                   \<and> (\<not> continues (snd (last xs))
                        \<or> max_count \<le> int (length (fetched xs))))"
    by blast
qed

lemma wf_continuation_finite_source: "wf (continuation (finite_source n) tok)"
proof (rule wf_subset [OF wf_measure [of "\<lambda>(w, req). n - w"]])
  show "continuation (finite_source n) tok \<subseteq> measure (\<lambda>(w, req). n - w)"
    by (auto simp: continuation_def finite_source_def continues_def check_response_def
          split: if_splits)
qed

lemma finite_run:
  "graph_get_paginated (finite_source 40) bound_ctx ''me/messages'' 25 [(''$top'', PInt 25)] fresh_net
   = Some (Inr [0..<25],
       \<lparr> remote = 30,
         exchanges =
          [(\<lparr>url = ''https://graph.microsoft.com/v1.0/me/messages'',
             authorization = ''Bearer tok'', query = Some [(''$top'', PInt 25)]\<rparr>,
            Reply 200 (Some \<lparr>value = Some [0..<10],
                nextLink = Some ''https://graph.microsoft.com/v1.0/next''\<rparr>)),
           (\<lparr>url = ''https://graph.microsoft.com/v1.0/next'',
             authorization = ''Bearer tok'', query = None\<rparr>,
            Reply 200 (Some \<lparr>value = Some [10..<20],
                nextLink = Some ''https://graph.microsoft.com/v1.0/next''\<rparr>)),
           (\<lparr>url = ''https://graph.microsoft.com/v1.0/next'',
             authorization = ''Bearer tok'', query = None\<rparr>,
            Reply 200 (Some \<lparr>value = Some [20..<30],
                nextLink = Some ''https://graph.microsoft.com/v1.0/next''\<rparr>))] \<rparr>)"
  by (simp add: graph_simps source_simps upt_rec)

text \<open>
  A source of 40 items in pages of ten, with \<open>max_count = 25\<close>: the call returns the
  first 25 items after three requests.
\<close>

theorem graph_get_paginated_spec_witness:
  "(1::int) \<le> 25
   \<and> wf (continuation (finite_source 40) ''tok'')
   \<and> (\<exists>r. graph_get_paginated (finite_source 40) bound_ctx ''me/messages'' 25
             [(''$top'', PInt 25)] fresh_net = Some r)
   \<and> map_option fst (graph_get_paginated (finite_source 40) bound_ctx ''me/messages'' 25
             [(''$top'', PInt 25)] fresh_net) = Some (Inr [0..<25])
   \<and> map_option (\<lambda>r. length (exchanges (snd r)))
         (graph_get_paginated (finite_source 40) bound_ctx ''me/messages'' 25
             [(''$top'', PInt 25)] fresh_net) = Some 3"
  using graph_get_paginated_spec [of 25 bound_ctx "finite_source 40" "''me/messages''" "[(''$top'', PInt 25)]" fresh_net]
        wf_continuation_finite_source [of 40 "''tok''"] finite_run
  by (simp add: bound_ctx_def)

text \<open>
  Claim C9. When every page with a continuation link has at least one item,
  \<^verbatim>\<open>graph_get_paginated\<close> returns, for every \<open>max_count\<close>. Without that condition it
  need not: against a service that answers every request with an empty page and a
  continuation link, a call with a bearer token and \<open>max_count \<ge> 1\<close> does not return.
\<close>

theorem graph_get_paginated_termination:
  "(nonempty_continuations srv \<longrightarrow>
      (\<exists>r. graph_get_paginated srv ctx endpoint max_count params s = Some r))
   \<and> ((\<forall>w req. continues (fst (srv w req)) \<and> reply_items (fst (srv w req)) = [])
        \<and> truthy (microsoft_token ctx) \<and> 1 \<le> max_count \<longrightarrow>
      graph_get_paginated srv ctx endpoint max_count params s = None)"
proof (intro conjI impI)
  assume "nonempty_continuations srv"
  then show "\<exists>r. graph_get_paginated srv ctx endpoint max_count params s = Some r"
    unfolding graph_get_paginated_def by (rule paginate_terminates_nonempty)
next
  assume h: "(\<forall>w req. continues (fst (srv w req)) \<and> reply_items (fst (srv w req)) = [])
        \<and> truthy (microsoft_token ctx) \<and> 1 \<le> max_count"
  then have "int (length ([] :: 'b list)) < max_count" by simp
  with h show "graph_get_paginated srv ctx endpoint max_count params s = None"
    unfolding graph_get_paginated_def by (intro paginate_diverges) blast+
qed

theorem graph_get_paginated_termination_witness:
  "nonempty_continuations endless_source
   \<and> (\<exists>r. graph_get_paginated endless_source bound_ctx ''me/messages'' 25
             [(''$top'', PInt 25)] fresh_net = Some r)
   \<and> (\<forall>w req. continues (fst (stuck_source w req)) \<and> reply_items (fst (stuck_source w req)) = [])
   \<and> truthy (microsoft_token bound_ctx)
   \<and> graph_get_paginated stuck_source bound_ctx ''me/messages'' 1 [(''$top'', PInt 1)] fresh_net
       = None"
  using graph_get_paginated_termination [of endless_source bound_ctx "''me/messages''" 25 "[(''$top'', PInt 25)]" fresh_net]
        graph_get_paginated_termination [of stuck_source bound_ctx "''me/messages''" 1 "[(''$top'', PInt 1)]" fresh_net]
  by (simp add: nonempty_continuations_def continues_def reply_items_def check_response_def
        page_items_def source_simps)

theorem continuation_reference_verbatim_witness:
  "startswith ''https://graph.microsoft.com/v1.0/next'' ''http''
   \<and> truthy (microsoft_token bound_ctx)
   \<and> graph_get endless_source bound_ctx ''https://graph.microsoft.com/v1.0/next''
         [(''$top'', PInt 25)] fresh_net
       = graph_get endless_source bound_ctx ''https://graph.microsoft.com/v1.0/next'' [] fresh_net
   \<and> map_option (\<lambda>r. map (\<lambda>x. (url (fst x), query (fst x))) (exchanges (snd r)))
         (graph_get_paginated endless_source bound_ctx ''me/messages'' 25
            [(''$top'', PInt 25)] fresh_net)
       = Some [(''https://graph.microsoft.com/v1.0/me/messages'', Some [(''$top'', PInt 25)]),
               (''https://graph.microsoft.com/v1.0/next'', None),
               (''https://graph.microsoft.com/v1.0/next'', None)]"
  using continuation_reference_verbatim [of "''https://graph.microsoft.com/v1.0/next''" endless_source bound_ctx
              "[(''$top'', PInt 25)]" fresh_net "[]" 25]
        continuation_reference_verbatim [of "''me/messages''" endless_source bound_ctx
              "[(''$top'', PInt 25)]" fresh_net "[]" 25]
        endless_run
  by (simp add: startswith_def bound_ctx_def)

section \<open>The tools\<close>

subsection \<open>The search strategy\<close>

lemma individual_terms_amended:
  "individual_terms srv email_lines ctx endpoint count terms s =
     amended_first_success srv email_lines ctx endpoint count
       (map (\<lambda>(name, v). (term_params count name (the v), name @ '' search''))
          (filter (\<lambda>(name, v). truthy v) terms)) s"
proof (induction terms arbitrary: s)
  case Nil
  show ?case by simp
next
  case (Cons t terms)
  obtain name v where t: "t = (name, v)" by (cases t)
  show ?case
  proof (cases "truthy v")
    case False
    with t Cons show ?thesis by simp
  next
    case True
    with t Cons show ?thesis
      by (simp split: option.splits sum.splits prod.splits)
  qed
qed

lemma search_fallback_amended:
  "search_fallback srv email_lines ctx endpoint count query_text subject from_address s =
     amended_final srv email_lines ctx endpoint count
       (amended_first_success srv email_lines ctx endpoint count
          (map (\<lambda>(name, v). (term_params count name (the v), name @ '' search''))
             (filter (\<lambda>(name, v). truthy v)
                [(''subject'', subject), (''from'', from_address), (''query'', query_text)])) s)"
  unfolding search_fallback_def amended_final_def individual_terms_amended ..

lemma search_select_amended:
  "search_emails_select srv item_id email_lines ctx query_text folder from_address subject
       has_attachments unread_only count0 s
   = amended_search srv item_id email_lines ctx query_text folder from_address subject
       has_attachments unread_only count0 s"
proof -
  obtain endpoint s1 where r: "resolve_folder srv item_id ctx folder s = (endpoint, s1)"
    by (cases "resolve_folder srv item_id ctx folder s")
  let ?count = "min 50 (max 1 count0)"
  let ?rest = "map (\<lambda>(name, v). (term_params ?count name (the v), name @ '' search''))
             (filter (\<lambda>(name, v). truthy v)
                [(''subject'', subject), (''from'', from_address), (''query'', query_text)])"
  let ?comb = "combined_params ?count query_text subject from_address has_attachments unread_only"
  let ?fb = "search_fallback srv email_lines ctx endpoint ?count query_text subject from_address"
  have lhs: "search_emails_select srv item_id email_lines ctx query_text folder from_address
       subject has_attachments unread_only count0 s =
     (case graph_get_paginated srv ctx endpoint ?count ?comb s1 of
           None \<Rightarrow> None
         | Some (Inl e, s2) \<Rightarrow> ?fb s2
         | Some (Inr emails, s2) \<Rightarrow>
             if emails \<noteq> [] then
               (case format_search_results email_lines emails ''combined search'' of
                  Inl e \<Rightarrow> ?fb s2
                | Inr text \<Rightarrow> Some (Inr (emails, ''combined search'', text), s2))
             else ?fb s2)"
    unfolding search_emails_select_def Let_def r prod.case ..
  have rhs: "amended_search srv item_id email_lines ctx query_text folder from_address subject
       has_attachments unread_only count0 s =
     amended_final srv email_lines ctx endpoint ?count
       (amended_first_success srv email_lines ctx endpoint ?count
          ((?comb, ''combined search'') # ?rest) s1)"
    unfolding amended_search_def Let_def r prod.case spec_attempts_def ..
  show ?thesis
  proof (cases "graph_get_paginated srv ctx endpoint ?count ?comb s1")
    case None
    show ?thesis unfolding lhs rhs by (simp add: None amended_final_def)
  next
    case (Some y)
    obtain res s2 where y: "y = (res, s2)" by (cases y)
    show ?thesis
    proof (cases res)
      case (Inl e)
      show ?thesis unfolding lhs rhs
        by (simp add: Some y Inl search_fallback_amended)
    next
      case (Inr emails)
      note res = this
      show ?thesis
      proof (cases "emails = []")
        case True
        show ?thesis unfolding lhs rhs
          by (simp add: Some y res True search_fallback_amended)
      next
        case False
        show ?thesis
        proof (cases "format_search_results email_lines emails ''combined search''")
          case (Inl e)
          note fl = this
          show ?thesis unfolding lhs rhs
            by (simp add: Some y res False fl search_fallback_amended)
        next
          case (Inr formatted)
          note fr = this
          show ?thesis unfolding lhs rhs
            by (simp add: Some y res False fr amended_final_def)
        qed
      qed
    qed
  qed
qed

lemma join_Cons: "\<exists>rest. join sep (x # xs) = x @ rest"
  by (cases xs) auto

lemma format_label:
  assumes "emails \<noteq> []" and "format_search_results email_lines emails strategy = Inr text"
  shows "\<exists>rest. text =
           ''Found '' @ str_nat (length emails) @ '' emails (via '' @ strategy @ ''):'' @ rest"
proof -
  let ?h = "''Found '' @ str_nat (length emails) @ '' emails (via '' @ strategy @ ''):'' @ [CHR 0x0A]"
  from assms obtain ls where "text = join [CHR 0x0A] (?h # ls)"
    by (auto simp: format_search_results_def split: sum.splits)
  moreover obtain rest where "join [CHR 0x0A] (?h # ls) = ?h @ rest"
    using join_Cons by blast
  ultimately show ?thesis by simp
qed

lemma first_success_text:
  assumes "amended_first_success srv email_lines ctx endpoint count attempts s
             = Some (Some (emails, label, text), s')"
  shows "emails \<noteq> [] \<and> format_search_results email_lines emails label = Inr text
         \<and> label \<in> snd ` set attempts"
  using assms
proof (induction attempts arbitrary: s)
  case Nil
  then show ?case by simp
next
  case (Cons a attempts)
  obtain ps l where a: "a = (ps, l)" by (cases a)
  show ?case
  proof (cases "graph_get_paginated srv ctx endpoint count ps s")
    case None
    with Cons.prems a show ?thesis by simp
  next
    case (Some y)
    obtain res s1 where y: "y = (res, s1)" by (cases y)
    show ?thesis
    proof (cases res)
      case (Inl e)
      with Cons.prems a Some y
      have "amended_first_success srv email_lines ctx endpoint count attempts s1
              = Some (Some (emails, label, text), s')" by simp
      from Cons.IH [OF this] show ?thesis by simp
    next
      case (Inr found)
      show ?thesis
      proof (cases "found \<noteq> [] \<and> (\<exists>t. format_search_results email_lines found l = Inr t)")
        case True
        then obtain t where t: "found \<noteq> []" "format_search_results email_lines found l = Inr t"
          by blast
        with Cons.prems a Some y Inr have "emails = found" "label = l" "text = t" by simp_all
        with t a show ?thesis by simp
      next
        case False
        with Cons.prems a Some y Inr
        have "amended_first_success srv email_lines ctx endpoint count attempts s1
                = Some (Some (emails, label, text), s')"
          by (cases "found = []"; cases "format_search_results email_lines found l") simp_all
        from Cons.IH [OF this] show ?thesis by simp
      qed
    qed
  qed
qed

lemma format_lines_total:
  assumes "\<forall>i email. \<exists>ls. email_lines i email = Inr ls"
  shows "\<exists>ls. format_lines email_lines i emails = Inr ls"
proof (induction emails arbitrary: i)
  case Nil
  show ?case by simp
next
  case (Cons email emails)
  from assms obtain ls where "email_lines i email = Inr ls" by blast
  moreover from Cons obtain rest where "format_lines email_lines (Suc i) emails = Inr rest"
    by blast
  ultimately show ?case by simp
qed

lemma format_total:
  assumes "\<forall>i email. \<exists>ls. email_lines i email = Inr ls"
  shows "\<exists>t. format_search_results email_lines emails strategy = Inr t"
proof -
  from format_lines_total [OF assms] obtain ls where "format_lines email_lines 1 emails = Inr ls"
    by blast
  then show ?thesis by (simp add: format_search_results_def)
qed

lemma first_success_total:
  assumes total: "\<forall>i email. \<exists>ls. email_lines i email = Inr ls"
  shows "amended_first_success srv email_lines ctx endpoint count attempts s =
     (case spec_first_success srv ctx endpoint count attempts s of
        None \<Rightarrow> None
      | Some (None, s') \<Rightarrow> Some (None, s')
      | Some (Some (emails, label), s') \<Rightarrow>
          Some (Some (emails, label, projr (format_search_results email_lines emails label)), s'))"
proof (induction attempts arbitrary: s)
  case Nil
  show ?case by simp
next
  case (Cons a attempts)
  obtain ps l where a: "a = (ps, l)" by (cases a)
  show ?case
  proof (cases "graph_get_paginated srv ctx endpoint count ps s")
    case None
    with a show ?thesis by simp
  next
    case (Some y)
    obtain res s1 where y: "y = (res, s1)" by (cases y)
    show ?thesis
    proof (cases res)
      case (Inl e)
      with a Some y Cons show ?thesis by simp
    next
      case (Inr found)
      note res = this
      show ?thesis
      proof (cases "found = []")
        case True
        with a Some y res Cons show ?thesis by simp
      next
        case False
        from format_total [OF total] obtain t
          where "format_search_results email_lines found l = Inr t" by blast
        with a Some y res False show ?thesis by simp
      qed
    qed
  qed
qed

lemma final_total:
  assumes total: "\<forall>i email. \<exists>ls. email_lines i email = Inr ls"
  shows "text_of (amended_final srv email_lines ctx endpoint count
           (amended_first_success srv email_lines ctx endpoint count attempts s))
       = spec_formatted email_lines (spec_final srv ctx endpoint count
           (spec_first_success srv ctx endpoint count attempts s))"
proof (cases "spec_first_success srv ctx endpoint count attempts s")
  case None
  then show ?thesis
    by (simp add: first_success_total [OF total] amended_final_def spec_final_def
          text_of_def spec_formatted_def)
next
  case (Some y)
  obtain h s2 where y: "y = (h, s2)" by (cases y)
  show ?thesis
  proof (cases h)
    case (Some hit)
    obtain emails label where hit: "hit = (emails, label)" by (cases hit)
    from format_total [OF total] obtain t
      where "format_search_results email_lines emails label = Inr t" by blast
    with \<open>spec_first_success srv ctx endpoint count attempts s = Some y\<close> y Some hit
    show ?thesis
      by (simp add: first_success_total [OF total] amended_final_def spec_final_def
            text_of_def spec_formatted_def)
  next
    case None
    note h = this
    show ?thesis
    proof (cases "graph_get_paginated srv ctx endpoint count (base_params count) s2")
      case None
      with \<open>spec_first_success srv ctx endpoint count attempts s = Some y\<close> y h
      show ?thesis
        by (simp add: first_success_total [OF total] amended_final_def spec_final_def
              text_of_def spec_formatted_def)
    next
      case (Some z)
      obtain res s3 where z: "z = (res, s3)" by (cases z)
      show ?thesis
      proof (cases res)
        case (Inl e)
        with \<open>spec_first_success srv ctx endpoint count attempts s = Some y\<close> y h Some z
        show ?thesis
          by (simp add: first_success_total [OF total] amended_final_def spec_final_def
                text_of_def spec_formatted_def)
      next
        case (Inr emails)
        from format_total [OF total] obtain t
          where "format_search_results email_lines emails ''recent emails fallback'' = Inr t"
          by blast
        with \<open>spec_first_success srv ctx endpoint count attempts s = Some y\<close> y h Some z Inr
        show ?thesis
          by (simp add: first_success_total [OF total] amended_final_def spec_final_def
                text_of_def spec_formatted_def)
      qed
    qed
  qed
qed

lemma search_emails_total:
  assumes total: "\<forall>i email. \<exists>ls. email_lines i email = Inr ls"
  shows "search_emails srv item_id email_lines ctx query_text folder from_address subject
           has_attachments unread_only count0 s
       = spec_formatted email_lines
           (spec_search srv item_id ctx query_text folder from_address subject
              has_attachments unread_only count0 s)"
proof -
  obtain endpoint s1 where r: "resolve_folder srv item_id ctx folder s = (endpoint, s1)"
    by (cases "resolve_folder srv item_id ctx folder s")
  have "search_emails srv item_id email_lines ctx query_text folder from_address subject
           has_attachments unread_only count0 s
        = text_of (amended_search srv item_id email_lines ctx query_text folder from_address
             subject has_attachments unread_only count0 s)"
    unfolding search_emails_def search_select_amended text_of_def ..
  also have "\<dots> = spec_formatted email_lines
           (spec_search srv item_id ctx query_text folder from_address subject
              has_attachments unread_only count0 s)"
    unfolding amended_search_def spec_search_def Let_def r prod.case
    by (rule final_total [OF total])
  finally show ?thesis .
qed

lemma search_select_text:
  assumes "search_emails_select srv item_id email_lines ctx query_text folder from_address
             subject has_attachments unread_only count0 s = Some (Inr (emails, strategy, t), s')"
  shows "format_search_results email_lines emails strategy = Inr t"
proof -
  obtain endpoint s1 where r: "resolve_folder srv item_id ctx folder s = (endpoint, s1)"
    by (cases "resolve_folder srv item_id ctx folder s")
  let ?count = "min 50 (max 1 count0)"
  let ?fs = "amended_first_success srv email_lines ctx endpoint ?count
               (spec_attempts ?count query_text subject from_address has_attachments
                  unread_only) s1"
  from assms r have fin: "amended_final srv email_lines ctx endpoint ?count ?fs
                            = Some (Inr (emails, strategy, t), s')"
    by (simp add: search_select_amended amended_search_def Let_def)
  show ?thesis
  proof (cases ?fs)
    case None
    with fin show ?thesis by (simp add: amended_final_def)
  next
    case (Some y)
    obtain h s2 where y: "y = (h, s2)" by (cases y)
    show ?thesis
    proof (cases h)
      case (Some hit)
      with fin \<open>?fs = Some y\<close> y have "?fs = Some (Some (emails, strategy, t), s')"
        by (simp add: amended_final_def)
      from first_success_text [OF this] show ?thesis by simp
    next
      case None
      with fin \<open>?fs = Some y\<close> y show ?thesis
        by (auto simp: amended_final_def split: option.splits sum.splits)
    qed
  qed
qed

lemma spec_picky_run:
  "map_option fst (spec_formatted picky_lines
      (spec_search mailbox no_item_id bound_ctx (Some ''budget'') ''inbox'' None
         (Some ''invoice'') None None 10 fresh_net)) = Some (Inl TypeError)"
  by code_simp

lemma spec_subject_hit:
  "map_option fst (spec_search mailbox no_item_id bound_ctx (Some ''budget'') ''inbox'' None
      (Some ''invoice'') None None 10 fresh_net) = Some (Inr ([1, 2], ''subject search''))"
  by code_simp

lemma picky_formatted:
  "format_search_results picky_lines [1, 2] ''subject search'' = Inl TypeError"
  by code_simp

lemma picky_select_lit:
  "map_option fst (search_emails_select mailbox no_item_id picky_lines bound_ctx (Some ''budget'')
      ''inbox'' None (Some ''invoice'') None None 10 fresh_net)
   = Some (Inr ([7, 8, 9], ''recent emails fallback'',
        ''Found 3 emails (via recent emails fallback):'' @ [CHR 0x0A, CHR 0x0A]
          @ ''1. message 7'' @ [CHR 0x0A] @ ''2. message 8'' @ [CHR 0x0A] @ ''3. message 9''))"
  by code_simp

lemma picky_text_run:
  "map_option fst (search_emails mailbox no_item_id picky_lines bound_ctx (Some ''budget'')
      ''inbox'' None (Some ''invoice'') None None 10 fresh_net)
   = Some (Inr (''Found 3 emails (via recent emails fallback):'' @ [CHR 0x0A, CHR 0x0A]
          @ ''1. message 7'' @ [CHR 0x0A] @ ''2. message 8'' @ [CHR 0x0A] @ ''3. message 9''))"
  by code_simp

text \<open>
  Claim C7, as stated, fails when the formatter raises on the result of an attempt.
  The combined search of the mailbox is empty and the search for the subject finds
  the messages 1 and 2, so the strategy of the specification selects them with the
  label \<^verbatim>\<open>subject search\<close>. The formatter \<open>picky_lines\<close> raises on the message 1:
  the call of \<^verbatim>\<open>_format_search_results\<close> is inside the \<^verbatim>\<open>try\<close> of the loop (lines 334
  to 345), the exception is swallowed, the remaining attempts are made and the tool
  returns the text of the final fetch, where the specification's strategy followed by
  the formatter fails with the exception.
\<close>

theorem search_passes_over_unformattable_hit:
  "map_option fst (spec_search mailbox no_item_id bound_ctx (Some ''budget'') ''inbox'' None
      (Some ''invoice'') None None 10 fresh_net) = Some (Inr ([1, 2], ''subject search''))
   \<and> format_search_results picky_lines [1, 2] ''subject search'' = Inl TypeError
   \<and> map_option fst (search_emails_select mailbox no_item_id picky_lines bound_ctx
        (Some ''budget'') ''inbox'' None (Some ''invoice'') None None 10 fresh_net)
      = Some (Inr ([7, 8, 9], ''recent emails fallback'',
        ''Found 3 emails (via recent emails fallback):'' @ [CHR 0x0A, CHR 0x0A]
          @ ''1. message 7'' @ [CHR 0x0A] @ ''2. message 8'' @ [CHR 0x0A] @ ''3. message 9''))
   \<and> map_option fst (search_emails mailbox no_item_id picky_lines bound_ctx (Some ''budget'')
        ''inbox'' None (Some ''invoice'') None None 10 fresh_net)
      = Some (Inr (''Found 3 emails (via recent emails fallback):'' @ [CHR 0x0A, CHR 0x0A]
          @ ''1. message 7'' @ [CHR 0x0A] @ ''2. message 8'' @ [CHR 0x0A] @ ''3. message 9''))
   \<and> map_option fst (spec_formatted picky_lines
        (spec_search mailbox no_item_id bound_ctx (Some ''budget'') ''inbox'' None
           (Some ''invoice'') None None 10 fresh_net)) = Some (Inl TypeError)
   \<and> search_emails mailbox no_item_id picky_lines bound_ctx (Some ''budget'')
        ''inbox'' None (Some ''invoice'') None None 10 fresh_net
      \<noteq> spec_formatted picky_lines
          (spec_search mailbox no_item_id bound_ctx (Some ''budget'') ''inbox'' None
             (Some ''invoice'') None None 10 fresh_net)"
proof -
  have "search_emails mailbox no_item_id picky_lines bound_ctx (Some ''budget'')
        ''inbox'' None (Some ''invoice'') None None 10 fresh_net
      \<noteq> spec_formatted picky_lines
          (spec_search mailbox no_item_id bound_ctx (Some ''budget'') ''inbox'' None
             (Some ''invoice'') None None 10 fresh_net)"
  proof
    assume "search_emails mailbox no_item_id picky_lines bound_ctx (Some ''budget'')
        ''inbox'' None (Some ''invoice'') None None 10 fresh_net
      = spec_formatted picky_lines
          (spec_search mailbox no_item_id bound_ctx (Some ''budget'') ''inbox'' None
             (Some ''invoice'') None None 10 fresh_net)"
    with picky_text_run spec_picky_run show False by simp
  qed
  with spec_subject_hit picky_formatted picky_select_lit picky_text_run spec_picky_run
  show ?thesis by blast
qed

text \<open>
  Claim C7, amended. An attempt of \<^verbatim>\<open>search_emails\<close> is the fetch together with the
  formatting of its result. After the combined attempt the non-empty terms are tried
  in the order subject, from, query; the first attempt with a non-empty result that
  the formatter turns into a text is returned with the label of its tier; an attempt
  whose fetch fails, whose result is empty or whose formatting raises is passed over;
  and when no attempt wins the folder is fetched and formatted, a failure of either
  being the failure of the search. The text returned is the formatter's text for the
  selected emails and label, and for a non-empty result it names the label. With a
  formatter that never raises this is the strategy of the specification followed by
  the formatter. The search expression of a term is the term quoted alone (with the
  prefix \<^verbatim>\<open>subject:\<close> or \<^verbatim>\<open>from:\<close>), without a filter; the final fetch has no search
  expression and no filter and is ordered by the date of receipt, descending.
\<close>

theorem search_follows_strategy:
  "search_emails_select srv item_id email_lines ctx query_text folder from_address subject
       has_attachments unread_only count0 s
     = amended_search srv item_id email_lines ctx query_text folder from_address subject
         has_attachments unread_only count0 s
   \<and> search_emails srv item_id email_lines ctx query_text folder from_address subject
       has_attachments unread_only count0 s
     = text_of (amended_search srv item_id email_lines ctx query_text folder from_address
         subject has_attachments unread_only count0 s)
   \<and> (\<forall>emails strategy t s'.
         search_emails_select srv item_id email_lines ctx query_text folder from_address subject
           has_attachments unread_only count0 s = Some (Inr (emails, strategy, t), s') \<longrightarrow>
         format_search_results email_lines emails strategy = Inr t
         \<and> (emails \<noteq> [] \<longrightarrow>
              (\<exists>rest. t = ''Found '' @ str_nat (length emails) @ '' emails (via '' @ strategy
                            @ ''):'' @ rest)))
   \<and> ((\<forall>i email. \<exists>ls. email_lines i email = Inr ls) \<longrightarrow>
         search_emails srv item_id email_lines ctx query_text folder from_address subject
           has_attachments unread_only count0 s
         = spec_formatted email_lines
             (spec_search srv item_id ctx query_text folder from_address subject
                has_attachments unread_only count0 s))
   \<and> map_of (term_params count ''subject'' v) ''$search'' = Some (PStr (''subject:'' @ quoted v))
   \<and> map_of (term_params count ''from'' v) ''$search'' = Some (PStr (''from:'' @ quoted v))
   \<and> map_of (term_params count ''query'' v) ''$search'' = Some (PStr (quoted v))
   \<and> map_of (term_params count name v) ''$filter'' = None
   \<and> map_of (base_params count) ''$search'' = None
   \<and> map_of (base_params count) ''$filter'' = None
   \<and> map_of (base_params count) ''$orderby'' = Some (PStr ''receivedDateTime desc'')"
proof (intro conjI allI impI)
  show "search_emails_select srv item_id email_lines ctx query_text folder from_address subject
       has_attachments unread_only count0 s
     = amended_search srv item_id email_lines ctx query_text folder from_address subject
         has_attachments unread_only count0 s"
    by (rule search_select_amended)
next
  show "search_emails srv item_id email_lines ctx query_text folder from_address subject
       has_attachments unread_only count0 s
     = text_of (amended_search srv item_id email_lines ctx query_text folder from_address
         subject has_attachments unread_only count0 s)"
    unfolding search_emails_def search_select_amended text_of_def ..
next
  fix emails strategy t s'
  assume run: "search_emails_select srv item_id email_lines ctx query_text folder from_address
           subject has_attachments unread_only count0 s = Some (Inr (emails, strategy, t), s')"
  then show f: "format_search_results email_lines emails strategy = Inr t"
    by (rule search_select_text)
  assume "emails \<noteq> []"
  then show "\<exists>rest. t = ''Found '' @ str_nat (length emails) @ '' emails (via '' @ strategy
                            @ ''):'' @ rest"
    using f by (rule format_label)
next
  assume "\<forall>i email. \<exists>ls. email_lines i email = Inr ls"
  then show "search_emails srv item_id email_lines ctx query_text folder from_address subject
           has_attachments unread_only count0 s
         = spec_formatted email_lines
             (spec_search srv item_id ctx query_text folder from_address subject
                has_attachments unread_only count0 s)"
    by (rule search_emails_total)
qed (simp_all add: term_params_def base_params_def)

lemma subject_run:
  "map_option fst (spec_formatted demo_lines
      (spec_search mailbox no_item_id bound_ctx (Some ''budget'') ''inbox'' None
         (Some ''invoice'') None None 10 fresh_net))
   = Some (Inr (''Found 2 emails (via subject search):'' @ [CHR 0x0A, CHR 0x0A]
                @ ''1. message 1'' @ [CHR 0x0A] @ ''2. message 2''))"
  by code_simp

lemma broken_run:
  "map_option fst (spec_formatted demo_lines
      (spec_search broken_mailbox no_item_id bound_ctx (Some ''budget'') ''inbox'' None
         None None (Some True) 10 fresh_net))
   = Some (Inl (ToolError ''Microsoft Graph API error: 503''))"
  by code_simp

lemma picky_amended_run:
  "map_option fst (amended_search mailbox no_item_id picky_lines bound_ctx (Some ''budget'')
      ''inbox'' None (Some ''invoice'') None None 10 fresh_net)
   = Some (Inr ([7, 8, 9], ''recent emails fallback'',
        ''Found 3 emails (via recent emails fallback):'' @ [CHR 0x0A, CHR 0x0A]
          @ ''1. message 7'' @ [CHR 0x0A] @ ''2. message 8'' @ [CHR 0x0A] @ ''3. message 9''))"
  by code_simp

lemma demo_lines_total: "\<forall>i email. \<exists>ls. demo_lines i email = Inr ls"
  by (simp add: demo_lines_def)

text \<open>
  Runs of the mailbox. With a formatter that never raises: the combined search is
  empty and the search for the subject has a result; every search is empty and the
  fetch of the folder fails with status 503, which is the failure of the search. With
  the formatter that raises on the message 1: the search for the subject is passed
  over and the text is the formatter's text for the messages of the final fetch.
\<close>

theorem search_follows_strategy_witness:
  "(\<forall>i email. \<exists>ls. demo_lines i email = Inr ls)
   \<and> map_option fst (search_emails mailbox no_item_id demo_lines bound_ctx (Some ''budget'')
        ''inbox'' None (Some ''invoice'') None None 10 fresh_net)
     = Some (Inr (''Found 2 emails (via subject search):'' @ [CHR 0x0A, CHR 0x0A]
                @ ''1. message 1'' @ [CHR 0x0A] @ ''2. message 2''))
   \<and> map_option fst (search_emails broken_mailbox no_item_id demo_lines bound_ctx
        (Some ''budget'') ''inbox'' None None None (Some True) 10 fresh_net)
     = Some (Inl (ToolError ''Microsoft Graph API error: 503''))
   \<and> map_option fst (search_emails_select mailbox no_item_id picky_lines bound_ctx
        (Some ''budget'') ''inbox'' None (Some ''invoice'') None None 10 fresh_net)
     = Some (Inr ([7, 8, 9], ''recent emails fallback'',
        ''Found 3 emails (via recent emails fallback):'' @ [CHR 0x0A, CHR 0x0A]
          @ ''1. message 7'' @ [CHR 0x0A] @ ''2. message 8'' @ [CHR 0x0A] @ ''3. message 9''))
   \<and> format_search_results picky_lines [7, 8, 9] ''recent emails fallback''
     = Inr (''Found 3 emails (via recent emails fallback):'' @ [CHR 0x0A, CHR 0x0A]
          @ ''1. message 7'' @ [CHR 0x0A] @ ''2. message 8'' @ [CHR 0x0A] @ ''3. message 9'')"
proof -
  note a = search_follows_strategy [of mailbox no_item_id demo_lines bound_ctx "Some ''budget''" "''inbox''" None
              "Some ''invoice''" None None 10 fresh_net,
              THEN conjunct2, THEN conjunct2, THEN conjunct2, THEN conjunct1]
  note b = search_follows_strategy [of broken_mailbox no_item_id demo_lines bound_ctx "Some ''budget''" "''inbox''"
              None None None "Some True" 10 fresh_net,
              THEN conjunct2, THEN conjunct2, THEN conjunct2, THEN conjunct1]
  note c = search_follows_strategy [of mailbox no_item_id picky_lines bound_ctx "Some ''budget''" "''inbox''" None
              "Some ''invoice''" None None 10 fresh_net]
  note c1 = c [THEN conjunct1]
  note c3 = c [THEN conjunct2, THEN conjunct2, THEN conjunct1]
  from a demo_lines_total
  have "search_emails mailbox no_item_id demo_lines bound_ctx (Some ''budget'')
        ''inbox'' None (Some ''invoice'') None None 10 fresh_net
     = spec_formatted demo_lines
      (spec_search mailbox no_item_id bound_ctx (Some ''budget'') ''inbox'' None
         (Some ''invoice'') None None 10 fresh_net)"
    by (rule mp)
  with subject_run
  have 1: "map_option fst (search_emails mailbox no_item_id demo_lines bound_ctx (Some ''budget'')
        ''inbox'' None (Some ''invoice'') None None 10 fresh_net)
     = Some (Inr (''Found 2 emails (via subject search):'' @ [CHR 0x0A, CHR 0x0A]
                @ ''1. message 1'' @ [CHR 0x0A] @ ''2. message 2''))"
    by simp
  from b demo_lines_total
  have "search_emails broken_mailbox no_item_id demo_lines bound_ctx
        (Some ''budget'') ''inbox'' None None None (Some True) 10 fresh_net
     = spec_formatted demo_lines
      (spec_search broken_mailbox no_item_id bound_ctx (Some ''budget'') ''inbox'' None
         None None (Some True) 10 fresh_net)"
    by (rule mp)
  with broken_run
  have 2: "map_option fst (search_emails broken_mailbox no_item_id demo_lines bound_ctx
        (Some ''budget'') ''inbox'' None None None (Some True) 10 fresh_net)
     = Some (Inl (ToolError ''Microsoft Graph API error: 503''))"
    by simp
  from c1 picky_amended_run
  have 3: "map_option fst (search_emails_select mailbox no_item_id picky_lines bound_ctx
        (Some ''budget'') ''inbox'' None (Some ''invoice'') None None 10 fresh_net)
     = Some (Inr ([7, 8, 9], ''recent emails fallback'',
        ''Found 3 emails (via recent emails fallback):'' @ [CHR 0x0A, CHR 0x0A]
          @ ''1. message 7'' @ [CHR 0x0A] @ ''2. message 8'' @ [CHR 0x0A] @ ''3. message 9''))"
    by simp
  then obtain s' where "search_emails_select mailbox no_item_id picky_lines bound_ctx
        (Some ''budget'') ''inbox'' None (Some ''invoice'') None None 10 fresh_net
     = Some (Inr ([7, 8, 9], ''recent emails fallback'',
        ''Found 3 emails (via recent emails fallback):'' @ [CHR 0x0A, CHR 0x0A]
          @ ''1. message 7'' @ [CHR 0x0A] @ ''2. message 8'' @ [CHR 0x0A] @ ''3. message 9''), s')"
    by (cases "search_emails_select mailbox no_item_id picky_lines bound_ctx
        (Some ''budget'') ''inbox'' None (Some ''invoice'') None None 10 fresh_net") auto
  with c3 have 4: "format_search_results picky_lines [7, 8, 9] ''recent emails fallback''
     = Inr (''Found 3 emails (via recent emails fallback):'' @ [CHR 0x0A, CHR 0x0A]
          @ ''1. message 7'' @ [CHR 0x0A] @ ''2. message 8'' @ [CHR 0x0A] @ ''3. message 9'')"
    by blast
  from demo_lines_total 1 2 3 4 show ?thesis by blast
qed

subsection \<open>The count of the tools\<close>


lemma tops_are_Nil [simp]: "tops_are n []"
  by (simp add: tops_are_def)

lemma tops_are_append [simp]: "tops_are n (xs @ ys) = (tops_are n xs \<and> tops_are n ys)"
  by (auto simp: tops_are_def)

lemma extends_refl [simp]: "extends n s s"
  by (simp add: extends_def)

lemma extends_trans: "extends n s s1 \<Longrightarrow> extends n s1 s2 \<Longrightarrow> extends n s s2"
  by (auto simp: extends_def)

lemma requested_top_graph_request:
  "requested_top (graph_request tok e p) = None
   \<or> requested_top (graph_request tok e p) = map_of p ''$top''"
  by (simp add: requested_top_def graph_request_def)

lemma graph_get_extends:
  assumes g: "graph_get srv ctx e p s = (r, s1)"
      and p: "map_of p ''$top'' = None \<or> map_of p ''$top'' = Some (PInt n)"
  shows "extends n s s1"
proof -
  from graph_get_cases [OF g] show ?thesis
  proof
    assume "\<not> truthy (microsoft_token ctx) \<and> s1 = s \<and> r = Inl AuthMissing"
    then show ?thesis by simp
  next
    assume h: "truthy (microsoft_token ctx)
           \<and> exchanges s1 = exchanges s @ [(graph_request (the (microsoft_token ctx)) e p,
                       fst (srv (remote s) (graph_request (the (microsoft_token ctx)) e p)))]
           \<and> remote s1 = snd (srv (remote s) (graph_request (the (microsoft_token ctx)) e p))
           \<and> r = check_response (fst (srv (remote s) (graph_request (the (microsoft_token ctx)) e p)))"
    have "tops_are n [(graph_request (the (microsoft_token ctx)) e p,
                       fst (srv (remote s) (graph_request (the (microsoft_token ctx)) e p)))]"
      using requested_top_graph_request [of "the (microsoft_token ctx)" e p] p
      by (auto simp: tops_are_def)
    with h show ?thesis unfolding extends_def by blast
  qed
qed

lemma trace_ok_tops:
  assumes ok: "trace_ok ctx m acc e p xs res"
      and p: "map_of p ''$top'' = None \<or> map_of p ''$top'' = Some (PInt n)"
  shows "tops_are n xs"
  unfolding tops_are_def
proof
  fix x assume "x \<in> set xs"
  then obtain k where k: "k < length xs" and x: "x = xs ! k"
    by (auto simp: in_set_conv_nth)
  show "requested_top (fst x) = None \<or> requested_top (fst x) = Some (PInt n)"
  proof (cases k)
    case 0
    with k have "xs \<noteq> []" by auto
    with ok have "fst (hd xs) = graph_request (the (microsoft_token ctx)) e p"
      unfolding trace_ok_def by blast
    with 0 x \<open>xs \<noteq> []\<close> have "fst x = graph_request (the (microsoft_token ctx)) e p"
      by (simp add: hd_conv_nth)
    with requested_top_graph_request [of "the (microsoft_token ctx)" e p] p
    show ?thesis by auto
  next
    case (Suc j)
    with k ok have "fst (xs ! Suc j) =
        graph_request (the (microsoft_token ctx)) (link_of (snd (xs ! j))) []"
      unfolding trace_ok_def by blast
    with Suc x requested_top_graph_request
           [of "the (microsoft_token ctx)" "link_of (snd (xs ! j))" "[]"]
    show ?thesis by auto
  qed
qed

lemma paginated_extends:
  assumes run: "graph_get_paginated srv ctx e m p s = Some (r, s')"
      and p: "map_of p ''$top'' = None \<or> map_of p ''$top'' = Some (PInt n)"
  shows "extends n s s'"
proof -
  from paginated_trace [OF run] obtain xs where xs: "exchanges s' = exchanges s @ xs"
    and ok: "trace_ok ctx m [] e p xs r" by blast
  from ok p have "tops_are n xs" by (rule trace_ok_tops)
  with xs show ?thesis unfolding extends_def by blast
qed

lemma paginated_length:
  assumes run: "graph_get_paginated srv ctx e m p s = Some (Inr items, s')"
      and m: "0 \<le> m"
  shows "length items \<le> nat m"
proof -
  from paginated_trace [OF run] obtain xs where ok: "trace_ok ctx m [] e p xs (Inr items)"
    by blast
  then have "items = slice_to ([] @ fetched xs) m" unfolding trace_ok_def by simp
  with m show ?thesis by (simp add: slice_to_def)
qed

lemma resolve_folder_extends:
  assumes "resolve_folder srv item_id ctx folder s = (endpoint, s1)"
  shows "extends n s s1"
proof (cases "folder = [] \<or> map_of WELL_KNOWN_FOLDERS (lower folder) \<noteq> None")
  case True
  with assms have "s1 = s" by (auto simp: resolve_folder_def split: if_splits)
  then show ?thesis by simp
next
  case False
  let ?p = "[(''$filter'', PStr (''displayName eq '' @ [CHR 0x27] @ folder @ [CHR 0x27]))]"
  obtain r s2 where g: "graph_get srv ctx ''me/mailFolders'' ?p s = (r, s2)"
    by (cases "graph_get srv ctx ''me/mailFolders'' ?p s") auto
  have "extends n s s2" using g by (rule graph_get_extends) simp
  moreover from assms False g have "s1 = s2"
    by (auto simp: resolve_folder_def split: sum.splits option.splits list.splits)
  ultimately show ?thesis by simp
qed

lemma first_success_extends:
  assumes "amended_first_success srv email_lines ctx endpoint count attempts s = Some (r, s')"
      and "\<forall>a \<in> set attempts. map_of (fst a) ''$top'' = Some (PInt n)"
      and "0 \<le> count"
  shows "extends n s s'
       \<and> (\<forall>emails label t. r = Some (emails, label, t) \<longrightarrow> length emails \<le> nat count)"
  using assms
proof (induction attempts arbitrary: s)
  case Nil
  then show ?case by simp
next
  case (Cons a attempts)
  obtain ps label where a: "a = (ps, label)" by (cases a)
  from Cons.prems(2) a have top: "map_of ps ''$top'' = None \<or> map_of ps ''$top'' = Some (PInt n)"
    by simp
  from Cons.prems(2) have rest: "\<forall>a \<in> set attempts. map_of (fst a) ''$top'' = Some (PInt n)"
    by simp
  show ?case
  proof (cases "graph_get_paginated srv ctx endpoint count ps s")
    case None
    with Cons.prems(1) a show ?thesis by simp
  next
    case (Some y)
    obtain res s1 where y: "y = (res, s1)" by (cases y)
    from Some y have run: "graph_get_paginated srv ctx endpoint count ps s = Some (res, s1)" by simp
    from run top have e1: "extends n s s1" by (rule paginated_extends)
    have continue: ?thesis
      if "amended_first_success srv email_lines ctx endpoint count attempts s1 = Some (r, s')"
      using Cons.IH [OF that rest Cons.prems(3)] e1 extends_trans by blast
    show ?thesis
    proof (cases res)
      case (Inl e)
      with Cons.prems(1) a run show ?thesis by (intro continue) simp
    next
      case (Inr emails)
      note res = this
      show ?thesis
      proof (cases "emails = []")
        case True
        with Cons.prems(1) a run res show ?thesis by (intro continue) simp
      next
        case False
        show ?thesis
        proof (cases "format_search_results email_lines emails label")
          case (Inl e)
          with Cons.prems(1) a run res False show ?thesis by (intro continue) simp
        next
          case (Inr formatted)
          with Cons.prems(1) a run res False
          have r: "r = Some (emails, label, formatted)" "s' = s1" by simp_all
          from run res have "length emails \<le> nat count"
            using Cons.prems(3) paginated_length by blast
          with r e1 show ?thesis by simp
        qed
      qed
    qed
  qed
qed

lemma attempts_top:
  "\<forall>a \<in> set (spec_attempts c q subj f ha uo). map_of (fst a) ''$top'' = Some (PInt c)"
  by (auto simp: spec_attempts_def combined_params_def term_params_def base_params_def Let_def)

lemma base_params_top: "map_of (base_params c) ''$top'' = Some (PInt c)"
  by (simp add: base_params_def)

lemma search_select_bounds:
  assumes run: "search_emails_select srv item_id email_lines ctx q folder f subj ha uo count0 s
                  = Some (r, s')"
  shows "extends (min 50 (max 1 count0)) s s'
       \<and> (\<forall>emails label t. r = Inr (emails, label, t) \<longrightarrow> length emails \<le> 50)"
proof -
  let ?c = "min 50 (max 1 count0)"
  have c0: "0 \<le> ?c" and c50: "nat ?c \<le> 50" by simp_all
  obtain endpoint s1 where rf: "resolve_folder srv item_id ctx folder s = (endpoint, s1)"
    by (cases "resolve_folder srv item_id ctx folder s")
  from rf have e0: "extends ?c s s1" by (rule resolve_folder_extends)
  let ?fs = "amended_first_success srv email_lines ctx endpoint ?c
               (spec_attempts ?c q subj f ha uo) s1"
  from run rf have fin: "amended_final srv email_lines ctx endpoint ?c ?fs = Some (r, s')"
    by (simp add: search_select_amended amended_search_def Let_def)
  show ?thesis
  proof (cases ?fs)
    case None
    with fin show ?thesis by (simp add: amended_final_def)
  next
    case (Some y)
    obtain h s2 where y: "y = (h, s2)" by (cases y)
    from Some y have fs: "?fs = Some (h, s2)" by simp
    from first_success_extends [OF fs attempts_top c0]
    have e1: "extends ?c s1 s2"
      and len: "\<forall>emails label t. h = Some (emails, label, t) \<longrightarrow> length emails \<le> nat ?c"
      by blast+
    from e0 e1 have e01: "extends ?c s s2" by (rule extends_trans)
    show ?thesis
    proof (cases h)
      case (Some hit)
      with fin fs have "r = Inr hit" "s' = s2" by (simp_all add: amended_final_def)
      with e01 len Some c50 show ?thesis by (cases hit) fastforce
    next
      case None
      show ?thesis
      proof (cases "graph_get_paginated srv ctx endpoint ?c (base_params ?c) s2")
        case n: None
        with fin fs None show ?thesis by (simp add: amended_final_def)
      next
        case (Some z)
        obtain res s3 where z: "z = (res, s3)" by (cases z)
        from Some z have last:
          "graph_get_paginated srv ctx endpoint ?c (base_params ?c) s2 = Some (res, s3)" by simp
        have "extends ?c s2 s3" using last by (rule paginated_extends) (simp add: base_params_top)
        with e01 have e: "extends ?c s s3" by (rule extends_trans)
        show ?thesis
        proof (cases res)
          case (Inl err)
          with fin fs None last have "r = Inl err" "s' = s3" by (simp_all add: amended_final_def)
          with e show ?thesis by simp
        next
          case (Inr emails)
          from last Inr c0 have l: "length emails \<le> nat ?c" using paginated_length by blast
          show ?thesis
          proof (cases "format_search_results email_lines emails ''recent emails fallback''")
            case (Inl err)
            with fin fs None last Inr have "r = Inl err" "s' = s3"
              by (simp_all add: amended_final_def)
            with e show ?thesis by simp
          next
            case (Inr formatted)
            with fin fs None last \<open>res = Inr emails\<close>
            have "r = Inr (emails, ''recent emails fallback'', formatted)" "s' = s3"
              by (simp_all add: amended_final_def)
            with l e c50 show ?thesis by simp
          qed
        qed
      qed
    qed
  qed
qed

lemma list_fetch_bounds:
  assumes run: "list_emails_fetch srv item_id ctx folder count0 s = Some (r, s')"
  shows "extends (min 50 (max 1 count0)) s s'
       \<and> (\<forall>emails. r = Inr emails \<longrightarrow> length emails \<le> 50)"
proof -
  let ?c = "min 50 (max 1 count0)"
  let ?p = "[(''$top'', PInt (min 50 ?c)), (''$orderby'', PStr ''receivedDateTime desc''),
            (''$select'', PStr email_list_fields)]"
  have c0: "0 \<le> ?c" and c50: "nat ?c \<le> 50" by simp_all
  obtain endpoint s1 where rf: "resolve_folder srv item_id ctx folder s = (endpoint, s1)"
    by (cases "resolve_folder srv item_id ctx folder s")
  from rf have e0: "extends ?c s s1" by (rule resolve_folder_extends)
  from run rf have last: "graph_get_paginated srv ctx endpoint ?c ?p s1 = Some (r, s')"
    by (simp add: list_emails_fetch_def Let_def)
  have "extends ?c s1 s'" using last by (rule paginated_extends) simp
  with e0 have e: "extends ?c s s'" by (rule extends_trans)
  have "length emails \<le> 50" if "r = Inr emails" for emails
  proof -
    from last that c0 have "length emails \<le> nat ?c" using paginated_length by blast
    with c50 show ?thesis by simp
  qed
  with e show ?thesis by blast
qed

lemma clamp_idem: "min 50 (max 1 (min 50 (max 1 (c :: int)))) = min 50 (max 1 c)"
  by simp

lemma list_emails_clamp:
  "list_emails srv item_id email_lines ctx folder count0 s
   = list_emails srv item_id email_lines ctx folder (min 50 (max 1 count0)) s"
  unfolding list_emails_def list_emails_fetch_def Let_def clamp_idem ..

lemma search_emails_clamp:
  "search_emails srv item_id email_lines ctx q folder f subj ha uo count0 s
   = search_emails srv item_id email_lines ctx q folder f subj ha uo (min 50 (max 1 count0)) s"
  unfolding search_emails_def search_emails_select_def Let_def clamp_idem ..

lemma list_emails_state:
  assumes "list_emails srv item_id email_lines ctx folder count0 s = Some (r, s')"
  shows "\<exists>r0. list_emails_fetch srv item_id ctx folder count0 s = Some (r0, s')"
  using assms by (auto simp: list_emails_def split: option.splits sum.splits if_splits)

lemma search_emails_state:
  assumes "search_emails srv item_id email_lines ctx q folder f subj ha uo count0 s = Some (r, s')"
  shows "\<exists>r0. search_emails_select srv item_id email_lines ctx q folder f subj ha uo count0 s
           = Some (r0, s')"
  using assms by (auto simp: search_emails_def split: option.splits sum.splits)

text \<open>
  Claim C10. \<^verbatim>\<open>list_emails\<close> and \<^verbatim>\<open>search_emails\<close> do with a count what they do with
  the count clamped to the interval from 1 to 50, which is 1 for a count below 1 and 50
  for a count above 50. Every request they send that has a \<^verbatim>\<open>$top\<close> asks for the
  clamped count, and the list of emails they format has at most 50 elements.
\<close>

theorem count_is_clamped:
  "list_emails srv item_id email_lines ctx folder count0 s
     = list_emails srv item_id email_lines ctx folder (min 50 (max 1 count0)) s
   \<and> search_emails srv item_id email_lines ctx query_text folder from_address subject
        has_attachments unread_only count0 s
     = search_emails srv item_id email_lines ctx query_text folder from_address subject
        has_attachments unread_only (min 50 (max 1 count0)) s
   \<and> 1 \<le> min 50 (max 1 count0) \<and> min 50 (max 1 count0) \<le> 50
   \<and> (count0 < 1 \<longrightarrow> min 50 (max 1 count0) = 1)
   \<and> (50 < count0 \<longrightarrow> min 50 (max 1 count0) = 50)
   \<and> (\<forall>r s'. list_emails_fetch srv item_id ctx folder count0 s = Some (r, s') \<longrightarrow>
         (\<exists>xs. exchanges s' = exchanges s @ xs
            \<and> (\<forall>x \<in> set xs. requested_top (fst x) = None
                  \<or> requested_top (fst x) = Some (PInt (min 50 (max 1 count0)))))
         \<and> (\<forall>emails. r = Inr emails \<longrightarrow> length emails \<le> 50))
   \<and> (\<forall>r s'. search_emails_select srv item_id email_lines ctx query_text folder from_address
                 subject has_attachments unread_only count0 s = Some (r, s') \<longrightarrow>
         (\<exists>xs. exchanges s' = exchanges s @ xs
            \<and> (\<forall>x \<in> set xs. requested_top (fst x) = None
                  \<or> requested_top (fst x) = Some (PInt (min 50 (max 1 count0)))))
         \<and> (\<forall>emails strategy t. r = Inr (emails, strategy, t) \<longrightarrow> length emails \<le> 50))
   \<and> (\<forall>r s'. list_emails srv item_id email_lines ctx folder count0 s = Some (r, s') \<longrightarrow>
         (\<exists>xs. exchanges s' = exchanges s @ xs
            \<and> (\<forall>x \<in> set xs. requested_top (fst x) = None
                  \<or> requested_top (fst x) = Some (PInt (min 50 (max 1 count0))))))
   \<and> (\<forall>r s'. search_emails srv item_id email_lines ctx query_text folder from_address
                 subject has_attachments unread_only count0 s = Some (r, s') \<longrightarrow>
         (\<exists>xs. exchanges s' = exchanges s @ xs
            \<and> (\<forall>x \<in> set xs. requested_top (fst x) = None
                  \<or> requested_top (fst x) = Some (PInt (min 50 (max 1 count0))))))"
proof (intro conjI allI impI)
  show "list_emails srv item_id email_lines ctx folder count0 s
     = list_emails srv item_id email_lines ctx folder (min 50 (max 1 count0)) s"
    by (rule list_emails_clamp)
  show "search_emails srv item_id email_lines ctx query_text folder from_address subject
        has_attachments unread_only count0 s
     = search_emails srv item_id email_lines ctx query_text folder from_address subject
        has_attachments unread_only (min 50 (max 1 count0)) s"
    by (rule search_emails_clamp)
  show "1 \<le> min 50 (max 1 count0)" by simp
  show "min 50 (max 1 count0) \<le> 50" by simp
  show "min 50 (max 1 count0) = 1" if "count0 < 1" using that by simp
  show "min 50 (max 1 count0) = 50" if "50 < count0" using that by simp
next
  fix r s'
  assume "list_emails_fetch srv item_id ctx folder count0 s = Some (r, s')"
  from list_fetch_bounds [OF this]
  show "\<exists>xs. exchanges s' = exchanges s @ xs
            \<and> (\<forall>x \<in> set xs. requested_top (fst x) = None
                  \<or> requested_top (fst x) = Some (PInt (min 50 (max 1 count0))))"
    unfolding extends_def tops_are_def by (rule conjunct1)
next
  fix r s' emails
  assume "list_emails_fetch srv item_id ctx folder count0 s = Some (r, s')" "r = Inr emails"
  with list_fetch_bounds show "length emails \<le> 50" by blast
next
  fix r s'
  assume "search_emails_select srv item_id email_lines ctx query_text folder from_address
                 subject has_attachments unread_only count0 s = Some (r, s')"
  from search_select_bounds [OF this]
  show "\<exists>xs. exchanges s' = exchanges s @ xs
            \<and> (\<forall>x \<in> set xs. requested_top (fst x) = None
                  \<or> requested_top (fst x) = Some (PInt (min 50 (max 1 count0))))"
    unfolding extends_def tops_are_def by (rule conjunct1)
next
  fix r s' emails strategy t
  assume "search_emails_select srv item_id email_lines ctx query_text folder from_address
                 subject has_attachments unread_only count0 s = Some (r, s')"
         "r = Inr (emails, strategy, t)"
  with search_select_bounds show "length emails \<le> 50" by blast
next
  fix r s'
  assume "list_emails srv item_id email_lines ctx folder count0 s = Some (r, s')"
  from list_emails_state [OF this] obtain r0
    where "list_emails_fetch srv item_id ctx folder count0 s = Some (r0, s')" by blast
  from list_fetch_bounds [OF this]
  show "\<exists>xs. exchanges s' = exchanges s @ xs
            \<and> (\<forall>x \<in> set xs. requested_top (fst x) = None
                  \<or> requested_top (fst x) = Some (PInt (min 50 (max 1 count0))))"
    unfolding extends_def tops_are_def by (rule conjunct1)
next
  fix r s'
  assume "search_emails srv item_id email_lines ctx query_text folder from_address
                 subject has_attachments unread_only count0 s = Some (r, s')"
  from search_emails_state [OF this] obtain r0
    where "search_emails_select srv item_id email_lines ctx query_text folder from_address
                 subject has_attachments unread_only count0 s = Some (r0, s')" by blast
  from search_select_bounds [OF this]
  show "\<exists>xs. exchanges s' = exchanges s @ xs
            \<and> (\<forall>x \<in> set xs. requested_top (fst x) = None
                  \<or> requested_top (fst x) = Some (PInt (min 50 (max 1 count0))))"
    unfolding extends_def tops_are_def by (rule conjunct1)
qed

lemma list_low_run:
  "map_option (\<lambda>r. (fst r, map (\<lambda>x. requested_top (fst x)) (exchanges (snd r))))
     (list_emails_fetch mailbox no_item_id bound_ctx ''inbox'' 0 fresh_net)
   = Some (Inr [7], [Some (PInt 1)])"
  by code_simp

lemma list_high_run:
  "map_option (\<lambda>r. (fst r, map (\<lambda>x. requested_top (fst x)) (exchanges (snd r))))
     (list_emails_fetch mailbox no_item_id bound_ctx ''Custom'' 100 fresh_net)
   = Some (Inr [7, 8, 9], [None, Some (PInt 50)])"
  by code_simp

lemma search_high_run:
  "map_option (\<lambda>r. map (\<lambda>x. requested_top (fst x)) (exchanges (snd r)))
     (search_emails_select mailbox no_item_id demo_lines bound_ctx (Some ''budget'') ''inbox'' None
        (Some ''invoice'') None None 100 fresh_net)
   = Some [Some (PInt 50), Some (PInt 50)]"
  by code_simp

theorem count_is_clamped_witness:
  "(0 :: int) < 1 \<and> (50 :: int) < 100
   \<and> list_emails mailbox no_item_id demo_lines bound_ctx ''inbox'' 0 fresh_net
       = list_emails mailbox no_item_id demo_lines bound_ctx ''inbox'' 1 fresh_net
   \<and> search_emails mailbox no_item_id demo_lines bound_ctx (Some ''budget'') ''inbox'' None
        (Some ''invoice'') None None 100 fresh_net
       = search_emails mailbox no_item_id demo_lines bound_ctx (Some ''budget'') ''inbox'' None
        (Some ''invoice'') None None 50 fresh_net
   \<and> map_option (\<lambda>r. (fst r, map (\<lambda>x. requested_top (fst x)) (exchanges (snd r))))
        (list_emails_fetch mailbox no_item_id bound_ctx ''inbox'' 0 fresh_net)
       = Some (Inr [7], [Some (PInt 1)])
   \<and> map_option (\<lambda>r. (fst r, map (\<lambda>x. requested_top (fst x)) (exchanges (snd r))))
        (list_emails_fetch mailbox no_item_id bound_ctx ''Custom'' 100 fresh_net)
       = Some (Inr [7, 8, 9], [None, Some (PInt 50)])
   \<and> map_option (\<lambda>r. map (\<lambda>x. requested_top (fst x)) (exchanges (snd r)))
        (search_emails_select mailbox no_item_id demo_lines bound_ctx (Some ''budget'') ''inbox''
           None (Some ''invoice'') None None 100 fresh_net)
       = Some [Some (PInt 50), Some (PInt 50)]"
  using count_is_clamped [of mailbox no_item_id demo_lines bound_ctx "''inbox''" 0 fresh_net
               "Some ''budget''" None "Some ''invoice''" None None]
        count_is_clamped [of mailbox no_item_id demo_lines bound_ctx "''inbox''" 100 fresh_net
               "Some ''budget''" None "Some ''invoice''" None None]
        list_low_run list_high_run search_high_run
  by simp

section \<open>The token service\<close>

lemmas demo_simps = demo_service_def demo_row_def demo_table_def other_row_def
  fetchrow_def newer_def PROVIDER_def startswith_def

lemmas token_simps = get_token_def read_clock_def normalized_def tzinfo_is_None_def
  replace_tzinfo_utc_def datetime_minus_def now_utc_def refresh_token_impl_def
  refresh_request_def expiry_after_def timedelta_seconds_def datetime_plus_def
  DATETIME_MIN_def DATETIME_END_def utc_micros_def Let_def

subsection \<open>The canonical row\<close>

lemma foldl_newer_in: "foldl newer r rs \<in> set (r # rs)"
proof (induction rs arbitrary: r)
  case Nil
  show ?case by simp
next
  case (Cons a rs)
  have "foldl newer (newer r a) rs \<in> set (newer r a # rs)" by (rule Cons.IH)
  moreover have "newer r a = r \<or> newer r a = a" by (simp add: newer_def)
  ultimately show ?case by auto
qed

lemma foldl_newer_max:
  "\<forall>x \<in> set (r # rs). col_created_at x \<le> col_created_at (foldl newer r rs)"
proof (induction rs arbitrary: r)
  case Nil
  show ?case by simp
next
  case (Cons a rs)
  have ih: "\<forall>x \<in> set (newer r a # rs).
      col_created_at x \<le> col_created_at (foldl newer (newer r a) rs)"
    by (rule Cons.IH)
  have "col_created_at r \<le> col_created_at (newer r a)"
       "col_created_at a \<le> col_created_at (newer r a)"
    by (simp_all add: newer_def)
  with ih show ?case by fastforce
qed

text \<open>
  The row that \<^verbatim>\<open>fetchrow\<close> hands out is a row of the table, it is an active row of the
  user and provider, and no such row was created later.
\<close>

lemma fetchrow_canonical:
  assumes "fetchrow rows uid prov = Some c"
  shows "c \<in> set rows \<and> col_user_id c = uid \<and> col_provider c = prov \<and> col_is_active c
       \<and> (\<forall>x \<in> set rows. col_user_id x = uid \<and> col_provider x = prov \<and> col_is_active x
             \<longrightarrow> col_created_at x \<le> col_created_at c)"
proof -
  let ?m = "filter (\<lambda>r. col_user_id r = uid \<and> col_provider r = prov \<and> col_is_active r) rows"
  from assms obtain r rs where m: "?m = r # rs" and c: "c = foldl newer r rs"
    by (auto simp: fetchrow_def split: list.splits)
  have "c \<in> set ?m" using foldl_newer_in [of r rs] m c by simp
  moreover have "\<forall>x \<in> set ?m. col_created_at x \<le> col_created_at c"
    using foldl_newer_max [of r rs] m c by simp
  ultimately show ?thesis by auto
qed

subsection \<open>The refresh protocol\<close>

lemma refresh_requests:
  "token_requests (snd (refresh_token_impl svc rt cid s)) =
     token_requests s @ [refresh_request svc rt]"
  by (simp add: refresh_token_impl_def Let_def read_clock_def
        split: token_reply.splits option.splits jv.splits prod.splits sum.splits)

lemma refresh_requests_pair:
  "refresh_token_impl svc rt cid s = (res, s') \<Longrightarrow>
     token_requests s' = token_requests s @ [refresh_request svc rt]"
  using refresh_requests [of svc rt cid s] by simp


lemma expiry_after_error: "expiry_after now seconds = Inl e \<Longrightarrow> e = OverflowError"
  by (auto simp: expiry_after_def timedelta_seconds_def datetime_plus_def now_utc_def
        split: if_splits)




subsection \<open>When \<^verbatim>\<open>get_token\<close> refreshes\<close>

text \<open>
  Claim C2. When the canonical row of the user is found and its two tokens decrypt,
  \<^verbatim>\<open>get_token\<close> sends the refresh request exactly when the expiry of the row, read as
  UTC when it is naive, lies less than 300 seconds (300000000 microseconds) after the
  reading of the clock; otherwise it sends nothing to the provider.
\<close>

theorem get_token_refreshes_iff_below_300s:
  assumes "fetchrow (table s) uid PROVIDER = Some r"
      and "decrypt svc (col_access_token r) = Some a"
      and "decrypt svc (col_refresh_token r) = Some rt"
  shows "token_requests (snd (get_token svc uid s)) =
           token_requests s @
           (if utc_micros (normalized (col_expires_at r)) - clock svc (ticks s) < 300 * 1000000
            then [refresh_request svc rt] else [])"
proof -
  obtain d where d: "datetime_minus (normalized (col_expires_at r))
                       (now_utc (clock svc (ticks s))) = Inr d"
    and dv: "d = utc_micros (normalized (col_expires_at r)) - clock svc (ticks s)"
    by (auto simp: datetime_minus_def now_utc_def utc_micros_def normalized_def
          tzinfo_is_None_def replace_tzinfo_utc_def split: datetime.splits)
  let ?s1 = "s\<lparr>locks := insert uid (locks s), pool_open := True, ticks := Suc (ticks s)\<rparr>"
  show ?thesis
  proof (cases "d < 300000000")
    case True
    obtain res s' where rf: "refresh_token_impl svc rt (col_id r) ?s1 = (res, s')"
      by (cases "refresh_token_impl svc rt (col_id r) ?s1") auto
    from refresh_requests_pair [OF rf]
    have "token_requests s' = token_requests s @ [refresh_request svc rt]"
      by simp
    with assms d True rf dv show ?thesis
      by (cases res) (simp_all add: get_token_def Let_def read_clock_def)
  next
    case False
    with assms d dv show ?thesis
      by (simp add: get_token_def Let_def read_clock_def)
  qed
qed

text \<open>An expiry 299 seconds ahead is refreshed, one 301 seconds ahead is not.\<close>

theorem get_token_refreshes_iff_below_300s_witness:
  "length (token_requests (snd (get_token demo_service ''u1'' (demo_table 299000000)))) = 1
   \<and> length (token_requests (snd (get_token demo_service ''u1'' (demo_table 301000000)))) = 0"
  using get_token_refreshes_iff_below_300s
          [of "demo_table 299000000" "''u1''" "demo_row 299000000" demo_service "''old''" "''r0''"]
        get_token_refreshes_iff_below_300s
          [of "demo_table 301000000" "''u1''" "demo_row 301000000" demo_service "''old''" "''r0''"]
  by (simp add: demo_simps utc_micros_def normalized_def tzinfo_is_None_def
        replace_tzinfo_utc_def)

subsection \<open>The expiry of the returned token\<close>

text \<open>
  Claim C1. The claim asks that the token returned after a refresh carries the expiry
  that the refresh has written to the row. \<^verbatim>\<open>_refresh_token\<close> returns the access token
  only, and \<^verbatim>\<open>get_token\<close> builds its result from the variable \<^verbatim>\<open>expires_at\<close> that it
  read from the row before the refresh. In the run below the stored token expires 100
  seconds after the reading of the clock, so it is refreshed: the token returned holds
  the new access token and the expiry of the replaced one, \<open>1100\<close> seconds, while the
  row holds the new expiry, an hour after the refresh.
\<close>

theorem get_token_returns_replaced_expiry:
  "fst (get_token demo_service ''u1'' (demo_table 100000000)) =
     Inr \<lparr> access_token = ''fresh'', user_id = ''u1'', expires_at = Some (Aware 1100000000 0) \<rparr>
   \<and> map col_expires_at (table (snd (get_token demo_service ''u1'' (demo_table 100000000)))) =
       [Aware 4600000001 0, Aware 9000000000 0]
   \<and> map col_access_token (table (snd (get_token demo_service ''u1'' (demo_table 100000000)))) =
       [''enc:fresh'', ''enc:other'']"
  by (simp add: demo_simps token_simps)

subsection \<open>What \<^verbatim>\<open>get_token\<close> writes\<close>

lemma untouched_refl: "untouched_columns r r"
  by (simp add: untouched_columns_def)

lemma untouched_trans:
  "untouched_columns a b \<Longrightarrow> untouched_columns b c \<Longrightarrow> untouched_columns a c"
  by (simp add: untouched_columns_def)

lemma row_frame_refl: "row_frame cid r r"
  by (simp add: row_frame_def untouched_refl)

lemma row_frame_trans:
  assumes "row_frame cid a b" and "row_frame cid b c"
  shows "row_frame cid a c"
proof -
  have u: "untouched_columns a c"
    using assms untouched_trans unfolding row_frame_def by blast
  have "c = a \<or> col_id a = cid"
  proof (cases "b = a")
    case True
    with assms(2) show ?thesis unfolding row_frame_def by blast
  next
    case False
    with assms(1) show ?thesis unfolding row_frame_def by blast
  qed
  with u show ?thesis unfolding row_frame_def by blast
qed

lemma list_all2_map_same: "(\<And>x. P x (f x)) \<Longrightarrow> list_all2 P xs (map f xs)"
  by (simp add: list_all2_map2 list_all2_same)

lemma row_frame_same: "list_all2 (row_frame cid) rows rows"
  by (simp add: list_all2_same row_frame_refl)

lemma row_frame_token_update:
  "row_frame cid r (if col_id r = cid
                then r\<lparr>col_access_token := a, col_refresh_token := b,
                       col_expires_at := c, col_updated_at := d\<rparr> else r)"
  by (simp add: row_frame_def untouched_columns_def)

lemma row_frame_last_used:
  "row_frame cid r (if col_id r = cid then r\<lparr>col_last_used_at := d\<rparr> else r)"
  by (simp add: row_frame_def untouched_columns_def)

lemma refresh_frame:
  "list_all2 (row_frame cid) (table s) (table (snd (refresh_token_impl svc rt cid s)))"
proof -
  have upd: "\<And>a b c d. list_all2 (row_frame cid) (table s)
      (map (\<lambda>r. if col_id r = cid
                then r\<lparr>col_access_token := a, col_refresh_token := b,
                       col_expires_at := c, col_updated_at := d\<rparr> else r) (table s))"
    by (rule list_all2_map_same) (rule row_frame_token_update)
  show ?thesis
    unfolding refresh_token_impl_def Let_def read_clock_def
    by (simp add: row_frame_same upd
          split: token_reply.split option.split jv.split sum.split)
qed

lemma get_token_unconnected:
  "fetchrow (table s) uid PROVIDER = None \<Longrightarrow> table (snd (get_token svc uid s)) = table s"
  by (simp add: get_token_def)

lemma get_token_frame_aux:
  assumes c: "fetchrow (table s) uid PROVIDER = Some c"
  shows "list_all2 (row_frame (col_id c)) (table s) (table (snd (get_token svc uid s)))"
proof -
  let ?s0 = "s\<lparr>locks := insert uid (locks s), pool_open := True\<rparr>"
  let ?s1 = "?s0\<lparr>ticks := Suc (ticks ?s0)\<rparr>"
  let ?touch = "\<lambda>d rows.
    map (\<lambda>x. if col_id x = col_id c then x\<lparr>col_last_used_at := d\<rparr> else x) rows"
  have touch: "\<And>d rows. list_all2 (row_frame (col_id c)) rows (?touch d rows)"
    by (rule list_all2_map_same) (rule row_frame_last_used)
  show ?thesis
  proof (cases "decrypt svc (col_access_token c)")
    case None
    with c show ?thesis by (simp add: get_token_def row_frame_same)
  next
    case (Some a)
    note a = this
    show ?thesis
    proof (cases "decrypt svc (col_refresh_token c)")
      case None
      with c a show ?thesis by (simp add: get_token_def row_frame_same)
    next
      case (Some rt)
      note rt = this
      show ?thesis
      proof (cases "datetime_minus (normalized (col_expires_at c))
                      (now_utc (clock svc (ticks s)))")
        case (Inl e)
        with c a rt show ?thesis
          by (simp add: get_token_def Let_def read_clock_def row_frame_same)
      next
        case (Inr d)
        note d = this
        show ?thesis
        proof (cases "d < 300000000")
          case False
          with c a rt d touch [of "table s"] show ?thesis
            by (simp add: get_token_def Let_def read_clock_def)
        next
          case True
          obtain res s2 where r: "refresh_token_impl svc rt (col_id c) ?s1 = (res, s2)"
            by (cases "refresh_token_impl svc rt (col_id c) ?s1") auto
          from refresh_frame [of "col_id c" ?s1 svc rt] r
          have f2: "list_all2 (row_frame (col_id c)) (table s) (table s2)" by simp
          show ?thesis
          proof (cases res)
            case (Inl e)
            with c a rt d True r f2 show ?thesis
              by (simp add: get_token_def Let_def read_clock_def)
          next
            case (Inr tok)
            have "list_all2 (row_frame (col_id c)) (table s)
                    (?touch (Some (clock svc (ticks s2))) (table s2))"
              by (rule list_all2_trans [OF _ f2 touch]) (rule row_frame_trans)
            with Inr c a rt d True r show ?thesis
              by (simp add: get_token_def Let_def read_clock_def)
          qed
        qed
      qed
    qed
  qed
qed

text \<open>
  Claim C8. Whatever \<^verbatim>\<open>get_token\<close> returns, the table has as many rows afterwards as
  before, and every row keeps its identifier, user, provider, metadata, active flag
  and time of creation. A row that differs afterwards has the identifier of the
  canonical row of the user, and it is that row when the identifiers of the table are
  distinct. So no row is created, the active flag is not written, and only the tokens,
  the expiry and the update and last-used timestamps of the canonical row change.
\<close>

theorem get_token_frame:
  "length (table (snd (get_token svc uid s))) = length (table s)
   \<and> (\<forall>i < length (table s).
        untouched_columns (table s ! i) (table (snd (get_token svc uid s)) ! i)
        \<and> (table (snd (get_token svc uid s)) ! i \<noteq> table s ! i \<longrightarrow>
             (\<exists>c. fetchrow (table s) uid PROVIDER = Some c \<and> col_id (table s ! i) = col_id c
                  \<and> (distinct (map col_id (table s)) \<longrightarrow> table s ! i = c))))"
proof (cases "fetchrow (table s) uid PROVIDER")
  case None
  then show ?thesis by (simp add: get_token_unconnected untouched_refl)
next
  case (Some c)
  let ?t' = "table (snd (get_token svc uid s))"
  have fr: "list_all2 (row_frame (col_id c)) (table s) ?t'"
    using Some by (rule get_token_frame_aux)
  then have len: "length ?t' = length (table s)"
    by (simp add: list_all2_lengthD)
  have cin: "c \<in> set (table s)" using fetchrow_canonical [OF Some] by (rule conjunct1)
  have row: "untouched_columns (table s ! i) (?t' ! i)
        \<and> (?t' ! i \<noteq> table s ! i \<longrightarrow>
             (\<exists>c. fetchrow (table s) uid PROVIDER = Some c \<and> col_id (table s ! i) = col_id c
                  \<and> (distinct (map col_id (table s)) \<longrightarrow> table s ! i = c)))"
    if i: "i < length (table s)" for i
  proof -
    from fr i have f: "row_frame (col_id c) (table s ! i) (?t' ! i)"
      by (rule list_all2_nthD)
    from f have u: "untouched_columns (table s ! i) (?t' ! i)"
      unfolding row_frame_def by (rule conjunct1)
    from f have ch: "?t' ! i = table s ! i \<or> col_id (table s ! i) = col_id c"
      unfolding row_frame_def by (rule conjunct2)
    have uniq: "table s ! i = c"
      if eq: "col_id (table s ! i) = col_id c" and d: "distinct (map col_id (table s))"
    proof -
      from d have inj: "inj_on col_id (set (table s))" by (simp only: distinct_map)
      have mem: "table s ! i \<in> set (table s)" using i by (rule nth_mem)
      show ?thesis by (rule inj_onD [OF inj eq mem cin])
    qed
    show ?thesis
    proof (intro conjI impI)
      show "untouched_columns (table s ! i) (?t' ! i)" by (rule u)
    next
      assume "?t' ! i \<noteq> table s ! i"
      with ch have eq: "col_id (table s ! i) = col_id c" by blast
      show "\<exists>c. fetchrow (table s) uid PROVIDER = Some c \<and> col_id (table s ! i) = col_id c
                  \<and> (distinct (map col_id (table s)) \<longrightarrow> table s ! i = c)"
        using Some eq uniq [OF eq] by blast
    qed
  qed
  show ?thesis
  proof (rule conjI)
    show "length ?t' = length (table s)" by (rule len)
  next
    show "\<forall>i < length (table s). untouched_columns (table s ! i) (?t' ! i)
        \<and> (?t' ! i \<noteq> table s ! i \<longrightarrow>
             (\<exists>c. fetchrow (table s) uid PROVIDER = Some c \<and> col_id (table s ! i) = col_id c
                  \<and> (distinct (map col_id (table s)) \<longrightarrow> table s ! i = c)))"
      by (intro allI impI) (rule row)
  qed
qed

text \<open>
  In the run with a refresh the row of \<^verbatim>\<open>u1\<close> changes, it is the canonical row, and the
  row of \<^verbatim>\<open>u2\<close> stays as it is.
\<close>

theorem get_token_frame_witness:
  "table (snd (get_token demo_service ''u1'' (demo_table 100000000))) ! 0
     \<noteq> table (demo_table 100000000) ! 0
   \<and> fetchrow (table (demo_table 100000000)) ''u1'' PROVIDER
       = Some (table (demo_table 100000000) ! 0)
   \<and> table (snd (get_token demo_service ''u1'' (demo_table 100000000))) ! 1
     = table (demo_table 100000000) ! 1"
  using get_token_frame [of demo_service "''u1''" "demo_table 100000000"]
  by (simp add: demo_simps token_simps)

end
